theory Spec2Isabelle
  imports Main "HOL-Library.Word"
begin

unbundle bit_operations_syntax

section \<open>Bytes, C strings and faults\<close>

text \<open>
  A \<^verbatim>\<open>char\<close> buffer holding binary data is a list of bytes; a NUL-terminated C string
  is a \<^typ>\<open>string\<close> without its terminator. \<^verbatim>\<open>uint32_t\<close> values are 32-bit words.
\<close>

type_synonym byte = "8 word"
type_synonym u32 = "32 word"

definition bytes_of :: "string \<Rightarrow> byte list" where
  "bytes_of s = map of_char s"

text \<open>A plain \<^verbatim>\<open>char\<close> read as a signed value (as on amd64).\<close>

definition schar :: "char \<Rightarrow> int" where
  "schar c = (if (of_char c :: int) < 128 then of_char c else of_char c - 256)"

section \<open>Hash conversion: \<^verbatim>\<open>legible_hash\<close> and \<^verbatim>\<open>illegible_hash\<close>\<close>

text \<open>One digit of \<^verbatim>\<open>printf\<close>'s \<^verbatim>\<open>%x\<close> conversion.\<close>

definition hex_digit :: "nat \<Rightarrow> char" where
  "hex_digit n = ''0123456789abcdef'' ! n"

text \<open>\<^verbatim>\<open>snprintf(&hash[x * 2], 3, "%02x", (unsigned char)hash_buffer[x])\<close>: two digits.\<close>

definition sprintf_02x :: "byte \<Rightarrow> string" where
  "sprintf_02x b = [hex_digit (unat b div 16), hex_digit (unat b mod 16)]"

definition legible_hash :: "byte list \<Rightarrow> string" where
  "legible_hash hash_buffer = concat (map (\<lambda>x. sprintf_02x (hash_buffer ! x)) [0..<20])"

text \<open>
  The value subtracted from a digit in \<^verbatim>\<open>illegible_hash\<close>:
  \<^verbatim>\<open>(hash_buffer[i] > 58 ? 87 : 48)\<close>, the comparison being on a plain \<^verbatim>\<open>char\<close>.
\<close>

definition digit_base :: "char \<Rightarrow> int" where
  "digit_base c = (if schar c > 58 then 87 else 48)"

definition illegible_hash :: "string \<Rightarrow> byte list" where
  "illegible_hash hash_buffer =
     map (\<lambda>x. word_of_int
                (16 * (of_char (hash_buffer ! (x * 2)) - digit_base (hash_buffer ! (x * 2)))
                 + of_char (hash_buffer ! (x * 2 + 1)) - digit_base (hash_buffer ! (x * 2 + 1))))
         [0..<20]"

definition lower_hex :: "string \<Rightarrow> bool" where
  "lower_hex h = list_all (\<lambda>c. c \<in> set ''0123456789abcdef'') h"

section \<open>Faults\<close>

text \<open>
  The program ends at the first error, by \<^verbatim>\<open>err\<close> (the error number of the failed
  system call, \<open>OSError\<close> here) or by \<^verbatim>\<open>errc\<close> with an explicit error number. A read or a
  write outside the bytes of a buffer has no defined result in C; the model gives it the
  value \<open>Undefined\<close>, which is neither a result nor an exit.
\<close>

datatype errno = E2BIG | EINVAL | ENOENT | ERANGE | OSError

datatype fault = Exit errno | Undefined

definition and_then :: "fault + 'a \<Rightarrow> ('a \<Rightarrow> fault + 'b) \<Rightarrow> fault + 'b" where
  "and_then m f = (case m of Inl e \<Rightarrow> Inl e | Inr x \<Rightarrow> f x)"

definition byte_at :: "byte list \<Rightarrow> nat \<Rightarrow> fault + byte" where
  "byte_at data i = (if i < length data then Inr (data ! i) else Inl Undefined)"

text \<open>\<^verbatim>\<open>memcpy\<close>, source side: \<open>n\<close> bytes of \<open>src\<close> from \<open>start\<close>.\<close>

definition fetch :: "byte list \<Rightarrow> nat \<Rightarrow> nat \<Rightarrow> fault + byte list" where
  "fetch src start n =
     (if start + n \<le> length src then Inr (take n (drop start src)) else Inl Undefined)"

text \<open>\<^verbatim>\<open>memcpy\<close>, destination side: the bytes \<open>bs\<close> written into \<open>dst\<close> at \<open>pos\<close>.\<close>

definition store_at :: "byte list \<Rightarrow> nat \<Rightarrow> byte list \<Rightarrow> fault + byte list" where
  "store_at dst pos bs =
     (if pos + length bs \<le> length dst
      then Inr (take pos dst @ bs @ drop (pos + length bs) dst)
      else Inl Undefined)"

text \<open>
  \<^verbatim>\<open>realloc\<close> to \<open>n\<close> bytes. The bytes gained are indeterminate in C; they are zero here.
\<close>

definition realloc :: "byte list \<Rightarrow> nat \<Rightarrow> byte list" where
  "realloc buf n = take n buf @ replicate (n - length buf) 0"

section \<open>Object hashes: \<^verbatim>\<open>calculate_object_hash\<close>\<close>

text \<open>
  The SHA-1 function comes from the cryptographic library, not from this program. Every
  definition that hashes takes it as the parameter \<open>H\<close>, from a message to its digest.
\<close>

type_synonym digest = "byte list \<Rightarrow> byte list"

text \<open>The table \<^verbatim>\<open>types[8]\<close> of \<^verbatim>\<open>calculate_object_hash\<close>.\<close>

definition types :: "string list" where
  "types = ['''', ''commit'', ''tree'', ''blob'', ''tag'', '''', ''ofs-delta'', ''ref-delta'']"

text \<open>Integer division of C, which truncates towards zero.\<close>

definition c_div :: "int \<Rightarrow> int \<Rightarrow> int" where
  "c_div a b = sgn a * sgn b * (\<bar>a\<bar> div \<bar>b\<bar>)"

text \<open>The conversion \<^verbatim>\<open>%u\<close> of \<^verbatim>\<open>printf\<close>.\<close>

fun decimal :: "nat \<Rightarrow> string" where
  "decimal n =
     (if n < 10 then [''0123456789'' ! n]
      else decimal (n div 10) @ [''0123456789'' ! (n mod 10)])"

declare decimal.simps [simp del]

text \<open>
  \<^verbatim>\<open>snprintf(dst, n, ...)\<close> for a formatted text \<open>s\<close>: the characters stored at
  \<^verbatim>\<open>dst\<close>, which are at most \<open>n - 1\<close> characters of \<open>s\<close> and a terminating NUL.
\<close>

definition snprintf :: "nat \<Rightarrow> string \<Rightarrow> string" where
  "snprintf n s = (if n = 0 then [] else take (n - 1) s @ [CHR 0x00])"

text \<open>
  \<^verbatim>\<open>while ((digits /= 10) > 0) header_width++;\<close> where \<^verbatim>\<open>digits\<close> is an \<^verbatim>\<open>int\<close>.
\<close>

function count_digits :: "int \<Rightarrow> nat \<Rightarrow> nat" where
  "count_digits digits header_width =
     (if c_div digits 10 > 0 then count_digits (c_div digits 10) (header_width + 1)
      else header_width)"
  by pat_completeness auto
termination
proof (relation "measure (\<lambda>(digits, header_width). nat digits)")
  show "wf (measure (\<lambda>(digits, header_width). nat digits))" by simp
next
  fix digits :: int and header_width :: nat
  assume "0 < c_div digits 10"
  then have "0 < digits"
    by (cases "digits > 0") (auto simp: c_div_def sgn_if split: if_splits)
  then have "c_div digits 10 < digits" by (simp add: c_div_def)
  with \<open>0 < digits\<close>
  show "((c_div digits 10, header_width + 1), (digits, header_width))
          \<in> measure (\<lambda>(digits, header_width). nat digits)"
    by simp
qed

declare count_digits.simps [simp del]

text \<open>
  \<^verbatim>\<open>calculate_object_hash(buffer, buffer_size, type)\<close>. \<^verbatim>\<open>temp_buffer\<close> is allocated
  with \<^verbatim>\<open>buffer_size + 24\<close> bytes, a sum of 32 bits. The header is printed into it with
  \<^verbatim>\<open>snprintf\<close> limited to \<^verbatim>\<open>header_width\<close>, the first \<^verbatim>\<open>buffer_size\<close> bytes of the
  buffer are copied to \<^verbatim>\<open>temp_buffer + header_width\<close>, and \<^verbatim>\<open>buffer_size +
  header_width\<close> bytes are hashed. When the header and the payload do not fit the
  allocation, which is so from \<open>2\<^sup>3\<^sup>2 - 24\<close> bytes on, where the sum wraps, the copy
  writes past it and the result is \<open>Undefined\<close>. \<^verbatim>\<open>digits\<close> is the \<^verbatim>\<open>uint32_t
  buffer_size\<close> converted to \<^verbatim>\<open>int\<close>. Lemma \<open>object_header_length\<close> shows that the
  header fills exactly \<^verbatim>\<open>header_width\<close> bytes, so the payload follows it without a gap.
\<close>

definition header_width :: "u32 \<Rightarrow> nat \<Rightarrow> nat" where
  "header_width buffer_size type = count_digits (sint buffer_size) (length (types ! type) + 3)"

definition object_header :: "u32 \<Rightarrow> nat \<Rightarrow> string" where
  "object_header buffer_size type =
     snprintf (header_width buffer_size type)
       (types ! type @ '' '' @ decimal (unat buffer_size))"

definition calculate_object_hash :: "digest \<Rightarrow> byte list \<Rightarrow> u32 \<Rightarrow> nat \<Rightarrow> fault + string" where
  "calculate_object_hash H buffer buffer_size type =
     (let temp_buffer = bytes_of (object_header buffer_size type) @ take (unat buffer_size) buffer
      in if unat (buffer_size + 24) < header_width buffer_size type + unat buffer_size
         then Inl Undefined
         else Inr (legible_hash
                     (H (take (unat buffer_size + header_width buffer_size type) temp_buffer))))"

text \<open>
  What the specification asks of the hash: SHA-1 over the type name, a space, the payload
  size in decimal and a NUL, followed by the payload, as 40 lower-case hexadecimal digits.
\<close>

definition hex_lower :: "byte list \<Rightarrow> string" where
  "hex_lower bs = concat (map (\<lambda>b. [''0123456789abcdef'' ! (unat b div 16),
                                     ''0123456789abcdef'' ! (unat b mod 16)]) bs)"

definition spec_object_hash :: "digest \<Rightarrow> string \<Rightarrow> byte list \<Rightarrow> string" where
  "spec_object_hash H type_name payload =
     hex_lower (H (bytes_of (type_name @ '' '' @ decimal (length payload)) @ [0] @ payload))"

section \<open>The object store\<close>

text \<open>
  \<^verbatim>\<open>struct object_node\<close>. The field \<^verbatim>\<open>buffer\<close> is \<open>None\<close> for a null pointer, and so
  is \<^verbatim>\<open>ref_delta_hash\<close>.
\<close>

record object_node =
  obj_hash :: string
  obj_type :: nat
  obj_index :: nat
  obj_index_delta :: u32
  obj_ref_delta_hash :: "string option"
  obj_pack_offset :: u32
  obj_buffer :: "byte list option"
  obj_buffer_size :: u32
  obj_file_offset :: u32
  obj_can_free :: bool

text \<open>\<^verbatim>\<open>struct file_node\<close>; \<^verbatim>\<open>hash\<close> is a null pointer for some directories.\<close>

record file_node =
  fn_mode :: nat
  fn_hash :: "string option"
  fn_path :: string
  fn_keep :: bool
  fn_save :: bool

text \<open>
  The state of a run: the fields of \<^verbatim>\<open>connector\<close> that the modelled procedures use, the
  global red-black trees, and the files they read.

  \<^item> \<open>object\<close> is the array \<^verbatim>\<open>connection->object\<close>; \<^verbatim>\<open>connection->objects\<close> is its length.
  \<^item> \<open>Objects\<close> is the tree \<^verbatim>\<open>Tree_Objects\<close>, keyed by hash. The tree holds pointers
    to nodes that are also in the array, so an entry gives the position of its node in the
    array.
  \<^item> \<open>Local_Hash\<close>, \<open>Local_Path\<close> are the trees of the local scan, keyed by hash and by path.
  \<^item> \<open>Remote_Path\<close> is the tree of the manifest, in the order \<^verbatim>\<open>RB_FOREACH\<close> visits it.
  \<^item> \<open>back_store\<close> is the content of the temporary object file of the low-memory mode,
    and \<open>files\<close> the content of the local files by path.
\<close>

record state =
  object :: "object_node list"
  Objects :: "(string \<times> nat) list"
  repair :: bool
  low_memory :: bool
  back_store :: "byte list"
  Local_Hash :: "(string \<times> file_node) list"
  Local_Path :: "(string \<times> file_node) list"
  Remote_Path :: "file_node list"
  ignore :: "string list"
  files :: "(string \<times> byte list) list"

text \<open>
  \<^verbatim>\<open>RB_FIND\<close> and \<^verbatim>\<open>RB_INSERT\<close> come from the system header \<^verbatim>\<open>sys/tree.h\<close>.
  \<^verbatim>\<open>RB_INSERT\<close> adds the element when no element of the tree compares equal to it; when
  one does, it leaves the tree as it is and returns that element.
\<close>

definition RB_FIND :: "(string \<times> 'a) list \<Rightarrow> string \<Rightarrow> 'a option" where
  "RB_FIND tree key = map_of tree key"

definition RB_INSERT :: "(string \<times> 'a) list \<Rightarrow> string \<Rightarrow> 'a \<Rightarrow> (string \<times> 'a) list" where
  "RB_INSERT tree key elm = (case map_of tree key of None \<Rightarrow> tree @ [(key, elm)] | Some _ \<Rightarrow> tree)"

text \<open>The node that a lookup in \<^verbatim>\<open>Tree_Objects\<close> returns.\<close>

definition find_object :: "state \<Rightarrow> string \<Rightarrow> object_node option" where
  "find_object s h = map_option (\<lambda>i. object s ! i) (RB_FIND (Objects s) h)"

text \<open>
  \<^verbatim>\<open>store_object(connection, type, buffer, buffer_size, pack_offset, index_delta,
  ref_delta_hash)\<close>. The new node gets the position \<^verbatim>\<open>connection->objects\<close>.
\<close>

definition new_node ::
  "state \<Rightarrow> string \<Rightarrow> nat \<Rightarrow> byte list \<Rightarrow> u32 \<Rightarrow> u32 \<Rightarrow> u32 \<Rightarrow> byte list option \<Rightarrow> object_node"
where
  "new_node s h t buffer buffer_size pack_offset index_delta ref_delta_hash =
     \<lparr>obj_hash = h,
      obj_type = t,
      obj_index = length (object s),
      obj_index_delta = index_delta,
      obj_ref_delta_hash = map_option legible_hash ref_delta_hash,
      obj_pack_offset = pack_offset,
      obj_buffer = Some buffer,
      obj_buffer_size = buffer_size,
      obj_file_offset = - 1,
      obj_can_free = True\<rparr>"

definition store_object ::
  "digest \<Rightarrow> state \<Rightarrow> nat \<Rightarrow> byte list \<Rightarrow> u32 \<Rightarrow> u32 \<Rightarrow> u32 \<Rightarrow> byte list option \<Rightarrow> fault + state"
where
  "store_object H s t buffer buffer_size pack_offset index_delta ref_delta_hash =
     and_then (calculate_object_hash H buffer buffer_size t) (\<lambda>h.
       if RB_FIND (Objects s) h \<noteq> None \<and> \<not> repair s then Inr s
       else
         Inr (s\<lparr>Objects := (if t < 6 then RB_INSERT (Objects s) h (length (object s)) else Objects s),
                 object := object s @
                   [new_node s h t buffer buffer_size pack_offset index_delta ref_delta_hash]\<rparr>))"

text \<open>
  \<^verbatim>\<open>load_buffer\<close> and \<^verbatim>\<open>release_buffer\<close>, on the node at position \<open>i\<close> of the array. In
  the low-memory mode \<^verbatim>\<open>load_buffer\<close> reads \<^verbatim>\<open>buffer_size\<close> bytes of the temporary file at
  \<^verbatim>\<open>file_offset\<close>, and exits when fewer are read.
\<close>

definition release_buffer :: "state \<Rightarrow> nat \<Rightarrow> state" where
  "release_buffer s i =
     (if low_memory s \<and> \<not> obj_can_free (object s ! i)
      then s\<lparr>object := (object s)[i := (object s ! i)\<lparr>obj_buffer := None\<rparr>]\<rparr>
      else s)"

definition load_buffer :: "state \<Rightarrow> nat \<Rightarrow> fault + state" where
  "load_buffer s i =
     (let obj = object s ! i in
      if low_memory s \<and> obj_buffer obj = None then
        (let bytes = take (unat (obj_buffer_size obj)) (drop (unat (obj_file_offset obj)) (back_store s)) in
         if length bytes \<noteq> unat (obj_buffer_size obj) then Inl (Exit OSError)
         else Inr (s\<lparr>object := (object s)[i := obj\<lparr>obj_buffer := Some bytes\<rparr>]\<rparr>))
      else Inr s)"

text \<open>
  \<^verbatim>\<open>load_file\<close> as \<^verbatim>\<open>load_object\<close> calls it, with an empty buffer of size 0: the buffer
  and the size it leaves. The size is a \<^verbatim>\<open>uint32_t\<close>, so a longer file is cut.
\<close>

definition load_file :: "state \<Rightarrow> string \<Rightarrow> fault + byte list \<times> u32" where
  "load_file s path =
     (case map_of (files s) path of
        None \<Rightarrow> Inl (Exit OSError)
      | Some content \<Rightarrow>
          (let buffer_size = (word_of_nat (length content) :: u32)
           in Inr (take (unat buffer_size) content, buffer_size)))"

text \<open>
  The test \<^verbatim>\<open>S_ISDIR\<close> on a mode: \<^verbatim>\<open>(m & 0170000) == 0040000\<close>, the constants being
  octal.
\<close>

definition S_ISDIR :: "nat \<Rightarrow> bool" where
  "S_ISDIR m = (m AND 61440 = 16384)"

text \<open>
  \<^verbatim>\<open>load_object(connection, hash, path)\<close>. A null \<^verbatim>\<open>path\<close> is \<open>None\<close>; the lookup by
  path then compares a null pointer with the paths of the tree, unless the tree is empty.
\<close>

definition load_object :: "digest \<Rightarrow> state \<Rightarrow> string \<Rightarrow> string option \<Rightarrow> fault + state" where
  "load_object H s h path =
     (if RB_FIND (Objects s) h \<noteq> None then Inr s
      else
        (let by_hash = RB_FIND (Local_Hash s) h;
             found = (case by_hash of
                        Some f \<Rightarrow> Inr (Some f)
                      | None \<Rightarrow>
                          (case path of
                             Some p \<Rightarrow> Inr (RB_FIND (Local_Path s) p)
                           | None \<Rightarrow> if Local_Path s = [] then Inr None else Inl Undefined))
         in and_then found (\<lambda>find.
              case find of
                None \<Rightarrow> Inl (Exit ENOENT)
              | Some f \<Rightarrow>
                  if \<not> S_ISDIR (fn_mode f) then
                    and_then (load_file s (fn_path f)) (\<lambda>(buffer, buffer_size).
                      store_object H s 3 buffer buffer_size 0 0 None)
                  else Inr s)))"

text \<open>
  The invariant of the lookup tree: every entry points to a node of the array, and the
  type of that node is below 6, so it is neither an ofs-delta (6) nor a ref-delta (7).
\<close>

definition plain_index :: "state \<Rightarrow> bool" where
  "plain_index s =
     list_all (\<lambda>(h, i). i < length (object s) \<and> obj_type (object s ! i) < 6) (Objects s)"

text \<open>
  How a later state stands to an earlier one in a pass that only adds resolved objects:
  the nodes the array had are still there with their types, and every node added since has
  a type below 6.
\<close>

definition types_kept :: "state \<Rightarrow> state \<Rightarrow> bool" where
  "types_kept s s' =
     (map obj_type (take (length (object s)) (object s')) = map obj_type (object s) \<and>
      list_all (\<lambda>obj. obj_type obj < 6) (drop (length (object s)) (object s')))"

text \<open>
  What else a later state keeps of an earlier one in such a pass. Every hash that the
  lookup tree had still leads to the same position. The nodes that the array had are the
  same but for their buffers, which the low-memory mode loads and releases; in the normal
  mode the buffers are the same too. The repair flag, the memory mode and the temporary
  file are the same.
\<close>

definition index_kept :: "state \<Rightarrow> state \<Rightarrow> bool" where
  "index_kept s s' =
     list_all (\<lambda>(h, i). RB_FIND (Objects s') h = RB_FIND (Objects s) h) (Objects s)"

definition nodes_kept :: "state \<Rightarrow> state \<Rightarrow> bool" where
  "nodes_kept s s' =
     (map (\<lambda>node. node\<lparr>obj_buffer := None\<rparr>) (take (length (object s)) (object s'))
        = map (\<lambda>node. node\<lparr>obj_buffer := None\<rparr>) (object s) \<and>
      (low_memory s \<or> take (length (object s)) (object s') = object s))"

definition pass_kept :: "state \<Rightarrow> state \<Rightarrow> bool" where
  "pass_kept s s' =
     (types_kept s s' \<and> index_kept s s' \<and> nodes_kept s s' \<and>
      repair s' = repair s \<and> low_memory s' = low_memory s \<and> back_store s' = back_store s)"

section \<open>The delta engine\<close>

text \<open>
  Positions in a buffer are natural numbers. The buffers are those of object nodes, whose
  size is a \<^verbatim>\<open>uint32_t\<close>; a position past the end of its buffer is only reached by a
  read past that end, which is \<open>Undefined\<close> already. Sizes, offsets and lengths decoded
  from the data are 32-bit words.
\<close>

subsection \<open>\<^verbatim>\<open>unpack_delta_integer\<close>\<close>

text \<open>
  The first loop, \<^verbatim>\<open>do if (bits & mask) read_bytes++; while (mask >>= 1);\<close>, started
  with \<^verbatim>\<open>mask = 8\<close>.
\<close>

function count_read_bytes :: "nat \<Rightarrow> nat \<Rightarrow> nat \<Rightarrow> nat" where
  "count_read_bytes bits msk read_bytes =
     (let read_bytes' = (if bits AND msk \<noteq> 0 then read_bytes + 1 else read_bytes);
          msk' = drop_bit 1 msk
      in if msk' \<noteq> 0 then count_read_bytes bits msk' read_bytes' else read_bytes')"
  by pat_completeness auto
termination
proof (relation "measure (\<lambda>(bits, msk, read_bytes). msk)")
  show "wf (measure (\<lambda>(bits, msk, read_bytes). msk))" by simp
next
  fix bits msk read_bytes :: nat and x xa :: nat
  assume "xa = drop_bit 1 msk" and "xa \<noteq> 0"
  then show "((bits, xa, x), (bits, msk, read_bytes))
               \<in> measure (\<lambda>(bits, msk, read_bytes). msk)"
    by (simp add: drop_bit_eq_div)
qed

declare count_read_bytes.simps [simp del]

text \<open>
  The second loop, started with \<^verbatim>\<open>mask = 3\<close> and \<^verbatim>\<open>temp = read_bytes\<close>:
  \<^verbatim>\<open>do { if (bits & (1 << mask)) result += ((unsigned char)data[*position + --temp]
  << (mask * 8)); } while (mask-- > 0);\<close>
\<close>

fun place_bytes :: "byte list \<Rightarrow> nat \<Rightarrow> nat \<Rightarrow> nat \<Rightarrow> nat \<Rightarrow> u32 \<Rightarrow> fault + u32" where
  "place_bytes data position bits 0 temp result =
     (if bits AND push_bit 0 1 \<noteq> 0
      then and_then (byte_at data (position + (temp - 1)))
             (\<lambda>b. Inr (result + push_bit (0 * 8) (ucast b)))
      else Inr result)"
| "place_bytes data position bits (Suc msk) temp result =
     (if bits AND push_bit (Suc msk) 1 \<noteq> 0
      then and_then (byte_at data (position + (temp - 1)))
             (\<lambda>b. place_bytes data position bits msk (temp - 1)
                      (result + push_bit (Suc msk * 8) (ucast b)))
      else place_bytes data position bits msk temp result)"

text \<open>The function returns the integer and leaves the position after the bytes read.\<close>

definition unpack_delta_integer :: "byte list \<Rightarrow> nat \<Rightarrow> nat \<Rightarrow> fault + u32 \<times> nat" where
  "unpack_delta_integer data position bits =
     (let read_bytes = count_read_bytes bits 8 0 in
      if read_bytes > 0
      then and_then (place_bytes data position bits 3 read_bytes 0)
             (\<lambda>result. Inr (result, position + read_bytes))
      else Inr (0, position))"

subsection \<open>\<^verbatim>\<open>unpack_variable_length_integer\<close>\<close>

text \<open>
  \<^verbatim>\<open>do result += (data[*position] & 0x7F) << (7 * count++); while (data[(*position)++]
  & 0x80);\<close> The shifted value is an \<^verbatim>\<open>int\<close>: a shift by 32 bits or more is
  \<open>Undefined\<close>.
\<close>

function unpack_varint :: "byte list \<Rightarrow> nat \<Rightarrow> nat \<Rightarrow> u32 \<Rightarrow> fault + u32 \<times> nat" where
  "unpack_varint data position count result =
     (if position < length data then
        (if 32 \<le> 7 * count then Inl Undefined
         else
           (let result' = result + push_bit (7 * count) (ucast (data ! position AND 0x7F))
            in if data ! position AND 0x80 \<noteq> 0
               then unpack_varint data (position + 1) (count + 1) result'
               else Inr (result', position + 1)))
      else Inl Undefined)"
  by pat_completeness auto
termination
  by (relation "measure (\<lambda>(data, position, count, result). length data - position)") auto

declare unpack_varint.simps [simp del]

definition unpack_variable_length_integer :: "byte list \<Rightarrow> nat \<Rightarrow> fault + u32 \<times> nat" where
  "unpack_variable_length_integer data position = unpack_varint data position 0 0"

subsection \<open>One instruction\<close>

text \<open>
  The body of the instruction loop up to the bounds test: it reads the instruction byte
  and its operands and gives the buffer that \<^verbatim>\<open>start\<close> points into, the offset in that
  buffer, the length, and the position after the instruction.
\<close>

datatype source = Merge_buffer | Delta_buffer

definition decode_instruction :: "byte list \<Rightarrow> nat \<Rightarrow> fault + source \<times> u32 \<times> u32 \<times> nat" where
  "decode_instruction buffer position =
     and_then (byte_at buffer position) (\<lambda>instruction.
       if instruction AND 0x80 \<noteq> 0 then
         (let length_bits = drop_bit 4 (instruction AND 0x70);
              offset_bits = instruction AND 0x0F
          in and_then (unpack_delta_integer buffer (position + 1) (unat offset_bits))
               (\<lambda>(offset, position').
                  and_then (unpack_delta_integer buffer position' (unat length_bits))
                    (\<lambda>(len, position'').
                       Inr (Merge_buffer, offset, if len = 0 then 65536 else len, position''))))
       else
         Inr (Delta_buffer, word_of_nat (position + 1), ucast instruction,
              position + 1 + unat instruction))"

text \<open>
  The instruction loop \<^verbatim>\<open>while (position < delta->buffer_size)\<close>. After the decoding
  comes the only test, \<^verbatim>\<open>new_position + length > new_file_size\<close> on 32-bit values, and
  the \<^verbatim>\<open>memcpy\<close> from \<^verbatim>\<open>start\<close> into the layer buffer.
\<close>

function instruction_loop ::
  "byte list \<Rightarrow> u32 \<Rightarrow> byte list \<Rightarrow> u32 \<Rightarrow> nat \<Rightarrow> byte list \<Rightarrow> u32 \<Rightarrow> fault + byte list \<times> u32"
where
  "instruction_loop buffer buffer_size merge_buffer new_file_size position layer_buffer new_position =
     (if position < unat buffer_size then
        (case decode_instruction buffer position of
           Inl e \<Rightarrow> Inl e
         | Inr (src, offset, len, position') \<Rightarrow>
             if new_position + len > new_file_size then Inl (Exit ERANGE)
             else
               (case fetch (case src of Merge_buffer \<Rightarrow> merge_buffer | Delta_buffer \<Rightarrow> buffer)
                       (unat offset) (unat len) of
                  Inl e \<Rightarrow> Inl e
                | Inr bytes \<Rightarrow>
                    (case store_at layer_buffer (unat new_position) bytes of
                       Inl e \<Rightarrow> Inl e
                     | Inr layer_buffer' \<Rightarrow>
                         instruction_loop buffer buffer_size merge_buffer new_file_size
                           position' layer_buffer' (new_position + len))))
      else Inr (layer_buffer, new_position))"
  by pat_completeness auto

text \<open>The loop ends: every instruction moves the position forward.\<close>

lemma unpack_delta_integer_position:
  "unpack_delta_integer data position bits = Inr (result, position') \<Longrightarrow> position \<le> position'"
  by (auto simp: unpack_delta_integer_def and_then_def Let_def split: if_splits sum.splits)

lemma decode_instruction_position:
  assumes "decode_instruction buffer position = Inr (src, offset, len, position')"
  shows "position < position'"
proof -
  from assms obtain instruction where i: "byte_at buffer position = Inr instruction"
    by (auto simp: decode_instruction_def and_then_def split: sum.splits)
  show ?thesis
  proof (cases "instruction AND 0x80 \<noteq> 0")
    case True
    with assms i obtain r1 p1 r2 where
      "unpack_delta_integer buffer (position + 1) (unat (instruction AND 0x0F)) = Inr (r1, p1)"
      "unpack_delta_integer buffer p1 (unat (drop_bit 4 (instruction AND 0x70))) = Inr (r2, position')"
      by (auto simp: decode_instruction_def and_then_def Let_def split: sum.splits)
    then have "position + 1 \<le> p1" "p1 \<le> position'"
      by (auto dest: unpack_delta_integer_position)
    then show ?thesis by simp
  next
    case False
    with assms i show ?thesis
      by (auto simp: decode_instruction_def and_then_def)
  qed
qed

termination instruction_loop
proof (relation "measure (\<lambda>(buffer, buffer_size, merge_buffer, new_file_size, position,
                            layer_buffer, new_position). unat buffer_size - position)")
  show "wf (measure (\<lambda>(buffer, buffer_size, merge_buffer, new_file_size, position,
                        layer_buffer, new_position). unat buffer_size - position))"
    by simp
next
  fix buffer :: "byte list" and buffer_size :: u32 and merge_buffer :: "byte list"
    and new_file_size :: u32 and position :: nat and layer_buffer :: "byte list"
    and new_position :: u32 and x2 x1 x2a x1a x2b x1b and x2c :: nat and x2d x2e
  assume "position < unat buffer_size"
    and "decode_instruction buffer position = Inr x2"
    and "(x1, x2a) = x2" and "(x1a, x2b) = x2a" and "(x1b, x2c) = x2b"
  then have "decode_instruction buffer position = Inr (x1, x1a, x1b, x2c)" by simp
  then have "position < x2c" by (rule decode_instruction_position)
  with \<open>position < unat buffer_size\<close>
  show "((buffer, buffer_size, merge_buffer, new_file_size, x2c, x2e, new_position + x1b),
         (buffer, buffer_size, merge_buffer, new_file_size, position, layer_buffer, new_position))
        \<in> measure (\<lambda>(buffer, buffer_size, merge_buffer, new_file_size, position,
                        layer_buffer, new_position). unat buffer_size - position)"
    by simp
qed

declare instruction_loop.simps [simp del]

text \<open>
  One pass of the loop over the deltas of a chain: the delta in \<open>buffer\<close> is applied to the
  merge buffer. The result is the merge buffer, the layer buffer and \<^verbatim>\<open>new_file_size\<close>.
\<close>

definition apply_delta ::
  "byte list \<Rightarrow> u32 \<Rightarrow> byte list \<Rightarrow> byte list \<Rightarrow> fault + byte list \<times> byte list \<times> u32"
where
  "apply_delta buffer buffer_size merge_buffer layer_buffer =
     and_then (unpack_variable_length_integer buffer 0) (\<lambda>(old_file_size, position).
     and_then (unpack_variable_length_integer buffer position) (\<lambda>(new_file_size, position).
       (let layer_buffer = (if unat new_file_size > length layer_buffer
                            then realloc layer_buffer (unat new_file_size) else layer_buffer)
        in and_then (instruction_loop buffer buffer_size merge_buffer new_file_size
                       position layer_buffer 0)
             (\<lambda>(layer_buffer, new_position).
                (let merge_buffer = (if unat new_file_size > length merge_buffer
                                     then realloc merge_buffer (unat new_file_size)
                                     else merge_buffer)
                 in and_then (fetch layer_buffer 0 (unat new_file_size)) (\<lambda>bytes.
                    and_then (store_at merge_buffer 0 bytes) (\<lambda>merge_buffer.
                      Inr (merge_buffer, layer_buffer, new_file_size))))))))"

subsection \<open>\<^verbatim>\<open>apply_deltas\<close>\<close>

text \<open>
  The chain of ofs-deltas: \<^verbatim>\<open>while (delta->type == 6)\<close>. The positions of the deltas go
  into the array \<^verbatim>\<open>deltas\<close>, which has room for 4096 of them.
\<close>

function walk_ofs_deltas ::
  "object_node list \<Rightarrow> object_node \<Rightarrow> nat list \<Rightarrow> fault + object_node \<times> nat list"
where
  "walk_ofs_deltas objs delta deltas =
     (if obj_type delta = 6 then
        (if 4096 \<le> length deltas then Inl Undefined
         else if unat (obj_index_delta delta) < length objs
         then walk_ofs_deltas objs (objs ! unat (obj_index_delta delta)) (deltas @ [obj_index delta])
         else Inl Undefined)
      else Inr (delta, deltas))"
  by pat_completeness auto
termination
  by (relation "measure (\<lambda>(objs, delta, deltas). 4096 - length deltas)") auto

declare walk_ofs_deltas.simps [simp del]

text \<open>
  The delta at position \<open>i\<close> of the array applied to the merge buffer, between
  \<^verbatim>\<open>load_buffer\<close> and \<^verbatim>\<open>release_buffer\<close>. The state carried along the chain is the
  run state, the merge buffer, the layer buffer and \<^verbatim>\<open>new_file_size\<close>.
\<close>

definition apply_stored_delta ::
  "state \<times> byte list \<times> byte list \<times> u32 \<Rightarrow> nat \<Rightarrow> fault + state \<times> byte list \<times> byte list \<times> u32"
where
  "apply_stored_delta st i =
     (case st of (s, merge_buffer, layer_buffer, new_file_size) \<Rightarrow>
        if i < length (object s) then
          and_then (load_buffer s i) (\<lambda>s.
            case obj_buffer (object s ! i) of
              None \<Rightarrow> Inl Undefined
            | Some buffer \<Rightarrow>
                and_then (apply_delta buffer (obj_buffer_size (object s ! i)) merge_buffer layer_buffer)
                  (\<lambda>(merge_buffer, layer_buffer, new_file_size).
                     Inr (release_buffer s i, merge_buffer, layer_buffer, new_file_size)))
        else Inl Undefined)"

fun apply_chain ::
  "state \<times> byte list \<times> byte list \<times> u32 \<Rightarrow> nat list \<Rightarrow> fault + state \<times> byte list \<times> byte list \<times> u32"
where
  "apply_chain st [] = Inr st"
| "apply_chain st (i # deltas) = and_then (apply_stored_delta st i) (\<lambda>st. apply_chain st deltas)"

text \<open>
  The body of the loop over the objects, for the object at position \<open>i\<close>, in three parts.

  First the chain: the ofs-deltas are followed, a ref-delta at the end of the chain is
  added and its base is loaded with \<^verbatim>\<open>load_object\<close>. The result is the state, the
  positions of the deltas and the hash in \<^verbatim>\<open>lookup\<close>. A node of type 7 always has a
  base hash (\<^verbatim>\<open>unpack_objects\<close> gives one to \<^verbatim>\<open>store_object\<close>); without one the lookup
  has no defined result, and neither has it when no branch has set \<^verbatim>\<open>lookup.hash\<close>.
\<close>

definition find_chain :: "digest \<Rightarrow> state \<Rightarrow> nat \<Rightarrow> fault + state \<times> nat list \<times> string" where
  "find_chain H s i =
     and_then (walk_ofs_deltas (object s) (object s ! i) []) (\<lambda>(delta, deltas).
       if obj_type delta = 7 then
         (if 4096 \<le> length deltas then Inl Undefined
          else case obj_ref_delta_hash delta of
                 None \<Rightarrow> Inl Undefined
               | Some h \<Rightarrow>
                   and_then (load_object H s h None)
                     (\<lambda>s. Inr (s, deltas @ [obj_index delta], h)))
       else if deltas = [] then Inl Undefined
       else Inr (s, deltas, obj_hash delta))"

text \<open>
  Then the merge buffer: \<^verbatim>\<open>buffer_size\<close> bytes allocated and copied from the buffer of
  the base.
\<close>

definition copy_base :: "object_node \<Rightarrow> fault + byte list" where
  "copy_base base =
     (case obj_buffer base of
        None \<Rightarrow> if obj_buffer_size base = 0 then Inr [] else Inl Undefined
      | Some b \<Rightarrow> fetch b 0 (unat (obj_buffer_size base)))"

text \<open>
  Last the deltas are applied, from the end of the array \<^verbatim>\<open>deltas\<close> to its start, and the
  merge buffer is stored with the type of the base and the size \<^verbatim>\<open>new_file_size\<close>. The
  layer buffer and \<^verbatim>\<open>new_file_size\<close> are kept from one object to the next.
\<close>

definition merge_chain ::
  "digest \<Rightarrow> state \<Rightarrow> nat \<Rightarrow> nat list \<Rightarrow> byte list \<Rightarrow> u32 \<Rightarrow> fault + state \<times> byte list \<times> u32"
where
  "merge_chain H s base deltas layer_buffer new_file_size =
     and_then (load_buffer s base) (\<lambda>s.
     and_then (copy_base (object s ! base)) (\<lambda>merge_buffer.
     and_then (apply_chain (s, merge_buffer, layer_buffer, new_file_size) (rev deltas))
       (\<lambda>(s, merge_buffer, layer_buffer, new_file_size).
          (let s = release_buffer s base
           in and_then (store_object H s (obj_type (object s ! base)) merge_buffer
                          new_file_size 0 0 None)
                (\<lambda>s. Inr (s, layer_buffer, new_file_size))))))"

definition resolve_delta ::
  "digest \<Rightarrow> state \<times> byte list \<times> u32 \<Rightarrow> nat \<Rightarrow> fault + state \<times> byte list \<times> u32"
where
  "resolve_delta H st i =
     (case st of (s, layer_buffer, new_file_size) \<Rightarrow>
        if obj_type (object s ! i) < 6 then Inr st
        else
          and_then (find_chain H s i) (\<lambda>(s, deltas, lookup).
            case RB_FIND (Objects s) lookup of
              None \<Rightarrow> Inl (Exit ENOENT)
            | Some base \<Rightarrow>
                if base < length (object s)
                then merge_chain H s base deltas layer_buffer new_file_size
                else Inl Undefined))"

text \<open>\<^verbatim>\<open>for (o = connection->objects - 1; o >= 0; o--)\<close>: \<open>n\<close> objects are left to visit.\<close>

fun apply_deltas_loop ::
  "digest \<Rightarrow> nat \<Rightarrow> state \<times> byte list \<times> u32 \<Rightarrow> fault + state \<times> byte list \<times> u32"
where
  "apply_deltas_loop H 0 st = Inr st"
| "apply_deltas_loop H (Suc n) st = and_then (resolve_delta H st n) (apply_deltas_loop H n)"

definition apply_deltas :: "digest \<Rightarrow> state \<Rightarrow> fault + state" where
  "apply_deltas H s =
     and_then (apply_deltas_loop H (length (object s)) (s, [], 0))
       (\<lambda>(s, layer_buffer, new_file_size). Inr s)"

subsection \<open>What the pass leaves for a delta\<close>


subsection \<open>The instructions as the specification describes them\<close>

text \<open>
  A copy instruction has one selector bit for each byte of its offset and of its length.
  A byte whose bit is set is the next byte of the stream; a byte whose bit is clear is
  zero. Byte \<open>k\<close> has the weight \<open>2\<^sup>8\<^sup>k\<close>, so byte 0 is the least significant. The
  result is the value and the rest of the stream, or nothing when the stream ends early.
\<close>

fun spec_select :: "nat \<Rightarrow> bool list \<Rightarrow> byte list \<Rightarrow> (u32 \<times> byte list) option" where
  "spec_select k [] stream = Some (0, stream)"
| "spec_select k (present # selectors) stream =
     (if present then
        (case stream of
           [] \<Rightarrow> None
         | b # rest \<Rightarrow>
             map_option (\<lambda>(v, r). (push_bit (8 * k) (ucast b) + v, r))
               (spec_select (k + 1) selectors rest))
      else spec_select (k + 1) selectors stream)"

text \<open>
  Bits 0 to 3 select the four offset bytes and bits 4 to 6 the three length bytes, the
  offset bytes coming first; a length of 0 stands for 65536.
\<close>

definition spec_copy :: "byte \<Rightarrow> byte list \<Rightarrow> (u32 \<times> u32 \<times> byte list) option" where
  "spec_copy instruction stream =
     (case spec_select 0 [bit instruction 0, bit instruction 1, bit instruction 2, bit instruction 3]
             stream of
        None \<Rightarrow> None
      | Some (offset, rest) \<Rightarrow>
          (case spec_select 0 [bit instruction 4, bit instruction 5, bit instruction 6] rest of
             None \<Rightarrow> None
           | Some (len, rest') \<Rightarrow> Some (offset, if len = 0 then 65536 else len, rest')))"

text \<open>
  An insert instruction: its low 7 bits count the bytes that follow it in the delta and
  are copied to the output as they are. The result is those bytes and the rest of the
  stream.
\<close>

definition spec_insert :: "byte \<Rightarrow> byte list \<Rightarrow> (byte list \<times> byte list) option" where
  "spec_insert instruction stream =
     (let n = unat (instruction AND 0x7F)
      in if n \<le> length stream then Some (take n stream, drop n stream) else None)"

section \<open>The pack decoder: the base of an ofs-delta\<close>

text \<open>
  The part of \<^verbatim>\<open>unpack_objects\<close> that handles an entry of type 6, after the type and size
  bytes. \<open>response\<close> holds the pack, \<open>pack_offset\<close> is the position where the entry starts
  and \<open>position\<close> is the position after its size bytes.

  The header: \<^verbatim>\<open>do lookup_offset = (lookup_offset << 7) + (response[position] & 0x7F) + 1;
  while (response[position++] & 0x80);\<close>
\<close>

function ofs_delta_offset :: "byte list \<Rightarrow> nat \<Rightarrow> u32 \<Rightarrow> fault + u32 \<times> nat" where
  "ofs_delta_offset response position lookup_offset =
     (if position < length response then
        (let lookup_offset' = push_bit 7 lookup_offset + ucast (response ! position AND 0x7F) + 1
         in if response ! position AND 0x80 \<noteq> 0
            then ofs_delta_offset response (position + 1) lookup_offset'
            else Inr (lookup_offset', position + 1))
      else Inl Undefined)"
  by pat_completeness auto
termination
  by (relation "measure (\<lambda>(response, position, lookup_offset). length response - position)") auto

declare ofs_delta_offset.simps [simp del]

text \<open>
  The search: \<^verbatim>\<open>while (--index_delta > 0) if (pack_offset - lookup_offset + 1 ==
  connection->object[index_delta]->pack_offset) break;\<close> where \<^verbatim>\<open>index_delta\<close> is an
  \<^verbatim>\<open>int\<close>. \<open>target\<close> is the left side of the comparison.
\<close>

function find_ofs_base :: "object_node list \<Rightarrow> u32 \<Rightarrow> int \<Rightarrow> fault + int" where
  "find_ofs_base objs target index_delta =
     (let index_delta' = index_delta - 1 in
      if index_delta' > 0 then
        (if nat index_delta' < length objs then
           (if target = obj_pack_offset (objs ! nat index_delta') then Inr index_delta'
            else find_ofs_base objs target index_delta')
         else Inl Undefined)
      else Inr index_delta')"
  by pat_completeness auto
termination
  by (relation "measure (\<lambda>(objs, target, index_delta). nat index_delta)") auto

declare find_ofs_base.simps [simp del]

text \<open>
  The whole step, with \<^verbatim>\<open>index_delta = connection->objects\<close> at the start and the exit
  \<^verbatim>\<open>if (index_delta == 0) errc(EXIT_FAILURE, EINVAL, ...)\<close> at the end. The result is
  \<^verbatim>\<open>index_delta\<close> and the position after the header.
\<close>

definition ofs_delta_base :: "state \<Rightarrow> byte list \<Rightarrow> u32 \<Rightarrow> nat \<Rightarrow> fault + int \<times> nat" where
  "ofs_delta_base s response pack_offset position =
     and_then (ofs_delta_offset response position 0) (\<lambda>(lookup_offset, position).
     and_then (find_ofs_base (object s) (pack_offset - lookup_offset + 1) (int (length (object s))))
       (\<lambda>index_delta.
          if index_delta = 0 then Inl (Exit EINVAL) else Inr (index_delta, position)))"

section \<open>The repair command: \<^verbatim>\<open>build_repair_command\<close>\<close>














subsection \<open>Rewriting the manifest\<close>

text \<open>
  The files of the disk, by path. \<^verbatim>\<open>save_objects\<close> is the only writer while it runs, and
  it writes through one descriptor, so a file is named by its path.
\<close>

type_synonym disk = "string \<rightharpoonup> string"

text \<open>
  What the system answers to the calls of \<^verbatim>\<open>save_objects\<close>: \<^verbatim>\<open>open\<close> fails;
  the write with a given number, counted from 0, stores only so many bytes of its data
  (\<open>None\<close>: it stores them all; 0 bytes is also what a failed write stores); \<^verbatim>\<open>remove\<close>
  fails with an error other than \<^verbatim>\<open>ENOENT\<close>; \<^verbatim>\<open>rename\<close> fails. The program tests the
  result of \<^verbatim>\<open>open\<close>, \<^verbatim>\<open>remove\<close> and \<^verbatim>\<open>rename\<close>, and does not look at the result of
  any \<^verbatim>\<open>write\<close>.
\<close>

record kernel =
  open_fails :: bool
  write_limit :: "nat \<Rightarrow> nat option"
  remove_fails :: bool
  rename_fails :: bool

text \<open>\<^verbatim>\<open>open(path, O_WRONLY | O_CREAT | O_TRUNC)\<close>: the file exists and is empty.\<close>

definition sys_open :: "disk \<Rightarrow> string \<Rightarrow> disk" where
  "sys_open d path = d(path \<mapsto> [])"

text \<open>
  \<^verbatim>\<open>write(fd, data, strlen(data))\<close> on the descriptor of \<open>path\<close>, as the write number
  \<open>call\<close>: the bytes that the system accepts are added to the file.
\<close>

definition accepted :: "kernel \<Rightarrow> nat \<Rightarrow> string \<Rightarrow> string" where
  "accepted k call data = (case write_limit k call of None \<Rightarrow> data | Some n \<Rightarrow> take n data)"

definition sys_write :: "kernel \<Rightarrow> nat \<Rightarrow> disk \<Rightarrow> string \<Rightarrow> string \<Rightarrow> disk" where
  "sys_write k call d path data =
     (case d path of None \<Rightarrow> d | Some written \<Rightarrow> d(path \<mapsto> written @ accepted k call data))"

text \<open>\<^verbatim>\<open>remove(path)\<close>; on a path that has no file it fails with \<^verbatim>\<open>ENOENT\<close> and changes
  nothing.\<close>

definition sys_remove :: "disk \<Rightarrow> string \<Rightarrow> disk" where
  "sys_remove d path = d(path := None)"

text \<open>\<^verbatim>\<open>rename(from, to)\<close>; \<open>None\<close> when \<open>from\<close> has no file.\<close>

definition sys_rename :: "disk \<Rightarrow> string \<Rightarrow> string \<Rightarrow> disk option" where
  "sys_rename d from to =
     (case d from of
        None \<Rightarrow> None
      | Some written \<Rightarrow> Some (if from = to then d else (d(from := None))(to \<mapsto> written)))"

text \<open>
  The writes of \<^verbatim>\<open>process_tree\<close> on the descriptor, one after the other, the first of
  them being the write number \<open>call\<close>: the disk after each of them.
\<close>

fun sys_writes :: "kernel \<Rightarrow> nat \<Rightarrow> disk \<Rightarrow> string \<Rightarrow> string list \<Rightarrow> disk list" where
  "sys_writes k call d path [] = []"
| "sys_writes k call d path (data # rest) =
     sys_write k call d path data # sys_writes k (call + 1) (sys_write k call d path data) path rest"

text \<open>\<^verbatim>\<open>snprintf(remote_data_file_new, BUFFER_UNIT_SMALL, "%s.new", connection->remote_data_file)\<close>\<close>

definition remote_data_file_new :: "string \<Rightarrow> string" where
  "remote_data_file_new remote_data_file = take 4095 (remote_data_file @ ''.new'')"

text \<open>
  \<^verbatim>\<open>save_objects\<close>, from the \<^verbatim>\<open>snprintf\<close> of the new name to the \<^verbatim>\<open>rename\<close>: the disk at
  the start and after each call that changes it, and the exit if there is one.
  \<^verbatim>\<open>process_tree\<close> touches the disk only by its writes on the descriptor; it is given by
  the data of these writes, \<open>tree_lines\<close>, and by the exit it ends with, \<open>tree_fault\<close>,
  if it does not return. \<^verbatim>\<open>chmod\<close> and \<^verbatim>\<open>close\<close> leave the contents as they are.
\<close>

definition save_objects ::
  "kernel \<Rightarrow> string \<Rightarrow> string \<Rightarrow> string list \<Rightarrow> fault option \<Rightarrow> disk \<Rightarrow> disk list \<times> fault option"
where
  "save_objects k remote_data_file want tree_lines tree_fault d0 =
     (let new = remote_data_file_new remote_data_file in
      if open_fails k then ([d0], Some (Exit OSError))
      else
        let d1 = sys_open d0 new;
            d2 = sys_write k 0 d1 new want;
            d3 = sys_write k 1 d2 new [CHR 0x0A];
            ds = sys_writes k 2 d3 new tree_lines;
            d4 = last (d3 # ds);
            written = [d0, d1, d2, d3] @ ds
        in case tree_fault of
             Some f \<Rightarrow> (written, Some f)
           | None \<Rightarrow>
               if remove_fails k then (written, Some (Exit OSError))
               else
                 let d5 = sys_remove d4 remote_data_file in
                 if rename_fails k then (written @ [d5], Some (Exit OSError))
                 else (case sys_rename d5 new remote_data_file of
                         None \<Rightarrow> (written @ [d5], Some (Exit OSError))
                       | Some d6 \<Rightarrow> (written @ [d5, d6], None)))"

section \<open>Example data\<close>

text \<open>
  The examples need a function in the place of SHA-1. This one gives the first 20 bytes
  of the message, padded with zero bytes; it is used for nothing else.
\<close>

definition example_digest :: digest where
  "example_digest m = take 20 (m @ replicate 20 0)"

definition empty_state :: state where
  "empty_state =
     \<lparr>object = [], Objects = [], repair = False, low_memory = False, back_store = [],
      Local_Hash = [], Local_Path = [], Remote_Path = [], ignore = [], files = []\<rparr>"

text \<open>
  The state in a result, for the examples that are made by storing objects; the stores of
  the examples all succeed.
\<close>

definition stored :: "fault + state \<Rightarrow> state" where
  "stored r = (case r of Inl e \<Rightarrow> empty_state | Inr s \<Rightarrow> s)"

text \<open>
  A store as \<^verbatim>\<open>unpack_objects\<close> leaves it after a pack of three entries: a commit at
  offset 12, a blob of four bytes at offset 40, and at offset 60 an ofs-delta whose base
  is the blob (position 1 of the array). The delta makes six bytes from four: it copies
  two bytes from offset 1 of the base, inserts three bytes, and copies one byte from
  offset 0.
\<close>

definition example_delta :: "byte list" where
  "example_delta = [4, 6, 0x91, 1, 2, 0x03, 65, 66, 67, 0x90, 1]"

definition example_pack :: state where
  "example_pack = stored
     (and_then (store_object example_digest empty_state 1 (bytes_of ''tree 4b825dc6'') 13 12 0 None)
        (\<lambda>s. and_then (store_object example_digest s 3 [1, 2, 3, 4] 4 40 0 None)
        (\<lambda>s. store_object example_digest s 6 example_delta 11 60 1 None)))"

text \<open>The example pack after the delta pass: the resolved blob has been stored.\<close>

definition example_resolved :: state where
  "example_resolved =
     stored (store_object example_digest example_pack 3 [2, 3, 65, 66, 67, 1] 6 0 0 None)"


text \<open>
  A pack of three entries whose ofs-delta does not fit its base: the base is a blob of
  one byte, and the delta announces a result of four bytes and has the single instruction
  \<^verbatim>\<open>0x90 0x04\<close>, a copy of four bytes from offset 0.
\<close>

definition example_bad_delta :: "byte list" where
  "example_bad_delta = [1, 4, 0x90, 4]"

definition example_bad_pack :: state where
  "example_bad_pack = stored
     (and_then (store_object example_digest empty_state 1 (bytes_of ''tree 4b825dc6'') 13 12 0 None)
        (\<lambda>s. and_then (store_object example_digest s 3 [65] 1 40 0 None)
        (\<lambda>s. store_object example_digest s 6 example_bad_delta 4 60 1 None)))"

text \<open>
  A pack of two entries read into an empty store (a clone): after the 12 bytes of the
  pack header a blob of four bytes at offset 12, whose compressed bytes are not looked at
  here, and at offset 30 an ofs-delta of that blob. The entry of the delta starts with the
  byte \<^verbatim>\<open>0x64\<close> (type 6, size 4), and its header is the single byte \<^verbatim>\<open>0x12\<close>, the
  distance 18 between the two entries.
\<close>

definition example_response :: "byte list" where
  "example_response =
     bytes_of ''PACK'' @ [0, 0, 0, 2, 0, 0, 0, 2] @ [0x34] @ replicate 17 0 @ [0x64, 0x12]"

definition example_first_entry :: state where
  "example_first_entry = stored (store_object example_digest empty_state 3 [1, 2, 3, 4] 4 12 0 None)"






text \<open>
  A disk with a manifest; a system on which every call succeeds; and a system whose disk
  is full after 8 bytes, so that the first write stores 8 bytes and the later ones none.
\<close>

definition example_disk :: disk where
  "example_disk = [''/var/db/gitup/ports'' \<mapsto> ''old manifest'']"

definition example_kernel :: kernel where
  "example_kernel =
     \<lparr>open_fails = False, write_limit = (\<lambda>call. None), remove_fails = False, rename_fails = False\<rparr>"

definition example_full_disk :: kernel where
  "example_full_disk = example_kernel\<lparr>write_limit := (\<lambda>call. if call = 0 then Some 8 else Some 0)\<rparr>"

text \<open>The commit that is wanted, and the two writes of \<^verbatim>\<open>process_tree\<close> for a tree with one
  file.\<close>

definition example_want :: string where
  "example_want = ''5555555555555555555555555555555555555555''"

definition example_tree_lines :: "string list" where
  "example_tree_lines =
     [''40000'' @ [CHR 0x09] @ ''6666666666666666666666666666666666666666'' @ [CHR 0x09] @ ''/usr/ports/'' @ [CHR 0x0A] @
      ''100644'' @ [CHR 0x09] @ ''7777777777777777777777777777777777777777'' @ [CHR 0x09] @ ''Makefile'' @ [CHR 0x0A],
      [CHR 0x0A]]"

section \<open>Properties of the hash conversions\<close>

subsection \<open>Round trip between binary and hexadecimal hashes\<close>

lemma concat_pairs_length:
  "length (concat (map (\<lambda>x. [f x, g x]) [0..<n])) = 2 * n"
  by (induction n) simp_all

lemma concat_pairs_nth:
  "x < n \<Longrightarrow>
     concat (map (\<lambda>x. [f x, g x]) [0..<n]) ! (x * 2) = f x \<and>
     concat (map (\<lambda>x. [f x, g x]) [0..<n]) ! (x * 2 + 1) = g x"
proof (induction n)
  case 0
  then show ?case by simp
next
  case (Suc n)
  let ?xs = "concat (map (\<lambda>x. [f x, g x]) [0..<n])"
  have len: "length ?xs = 2 * n" by (rule concat_pairs_length)
  show ?case
  proof (cases "x < n")
    case True
    with Suc.IH len show ?thesis by (simp add: nth_append)
  next
    case False
    with Suc.prems have "x = n" by simp
    with len show ?thesis by (simp add: nth_append mult.commute)
  qed
qed

lemma legible_hash_length: "length (legible_hash b) = 40"
  by (simp add: legible_hash_def sprintf_02x_def concat_pairs_length)

lemma legible_hash_nth:
  assumes "x < 20"
  shows "legible_hash b ! (x * 2) = hex_digit (unat (b ! x) div 16)"
    and "legible_hash b ! Suc (x * 2) = hex_digit (unat (b ! x) mod 16)"
  using concat_pairs_nth [OF assms,
      of "\<lambda>x. hex_digit (unat (b ! x) div 16)" "\<lambda>x. hex_digit (unat (b ! x) mod 16)"]
  by (simp_all add: legible_hash_def sprintf_02x_def)

lemma nat_less_16_cases:
  "(k::nat) < 16 \<Longrightarrow>
     k = 0 \<or> k = 1 \<or> k = 2 \<or> k = 3 \<or> k = 4 \<or> k = 5 \<or> k = 6 \<or> k = 7 \<or>
     k = 8 \<or> k = 9 \<or> k = 10 \<or> k = 11 \<or> k = 12 \<or> k = 13 \<or> k = 14 \<or> k = 15"
  by arith

lemma hex_digit_value:
  "k < 16 \<Longrightarrow> of_char (hex_digit k) - digit_base (hex_digit k) = int k"
  by (drule nat_less_16_cases, elim disjE)
     (simp_all add: hex_digit_def digit_base_def schar_def)

lemma byte_of_nibbles:
  "word_of_int (16 * int (unat b div 16) + int (unat b mod 16)) = (b :: byte)"
proof -
  have "16 * int (unat b div 16) + int (unat b mod 16) = int (unat b)"
    by (simp add: zdiv_int zmod_int)
  then show ?thesis by simp
qed

lemma illegible_legible: "length b = 20 \<Longrightarrow> illegible_hash (legible_hash b) = b"
proof (rule nth_equalityI)
  show "length (illegible_hash (legible_hash b)) = length b" if "length b = 20"
    using that by (simp add: illegible_hash_def)
next
  fix i
  assume len: "length b = 20" and "i < length (illegible_hash (legible_hash b))"
  then have i: "i < 20" by (simp add: illegible_hash_def)
  have hi: "unat (b ! i) div 16 < 16"
    using unsigned_less [of "b ! i", where ?'a = nat] by simp
  have lo: "unat (b ! i) mod 16 < 16" by simp
  have "illegible_hash (legible_hash b) ! i =
      word_of_int (16 * (of_char (hex_digit (unat (b ! i) div 16))
                         - digit_base (hex_digit (unat (b ! i) div 16)))
                   + of_char (hex_digit (unat (b ! i) mod 16))
                   - digit_base (hex_digit (unat (b ! i) mod 16)))"
    using i by (simp add: illegible_hash_def legible_hash_nth del: upt_Suc)
  also have "\<dots> = word_of_int (16 * int (unat (b ! i) div 16) + int (unat (b ! i) mod 16))"
    using hex_digit_value [OF hi] hex_digit_value [OF lo]
    by (simp add: algebra_simps)
  also have "\<dots> = b ! i" by (rule byte_of_nibbles)
  finally show "illegible_hash (legible_hash b) ! i = b ! i" .
qed


lemma lower_hex_char:
  "c \<in> set ''0123456789abcdef'' \<Longrightarrow> \<exists>k<16. c = hex_digit k"
proof -
  assume "c \<in> set ''0123456789abcdef''"
  moreover have "length ''0123456789abcdef'' = 16" by simp
  ultimately obtain k where "k < 16" "''0123456789abcdef'' ! k = c"
    by (metis in_set_conv_nth)
  then show ?thesis unfolding hex_digit_def by blast
qed

lemma sprintf_02x_digits:
  assumes "a < 16" "b < 16"
  shows "sprintf_02x (word_of_int (16 * int a + int b)) = [hex_digit a, hex_digit b]"
proof -
  have "unat (word_of_int (16 * int a + int b) :: byte) = 16 * a + b"
  proof -
    have "16 * int a + int b = int (16 * a + b)" by simp
    then have "(word_of_int (16 * int a + int b) :: byte) = of_nat (16 * a + b)"
      by (metis of_int_of_nat_eq)
    moreover have "16 * a + b < 2 ^ LENGTH(8)" using assms by simp
    ultimately show ?thesis by (simp only: of_nat_inverse)
  qed
  with assms show ?thesis unfolding sprintf_02x_def by simp
qed

lemma illegible_hash_nth_hex:
  assumes "x < 20" "length h = 40" "lower_hex h"
  shows "sprintf_02x (illegible_hash h ! x) = [h ! (x * 2), h ! (x * 2 + 1)]"
proof -
  from assms have "h ! (x * 2) \<in> set ''0123456789abcdef''" "h ! (x * 2 + 1) \<in> set ''0123456789abcdef''"
    by (simp_all add: lower_hex_def list_all_length)
  then obtain a b where ab: "a < 16" "h ! (x * 2) = hex_digit a" "b < 16" "h ! (x * 2 + 1) = hex_digit b"
    using lower_hex_char by metis
  have "illegible_hash h ! x = word_of_int (16 * int a + int b)"
    using assms(1) ab hex_digit_value [of a] hex_digit_value [of b]
    by (simp add: illegible_hash_def algebra_simps del: upt_Suc)
  with ab show ?thesis by (simp only: sprintf_02x_digits)
qed

lemma legible_illegible:
  assumes "length h = 40" "lower_hex h"
  shows "legible_hash (illegible_hash h) = h"
proof (rule nth_equalityI)
  show "length (legible_hash (illegible_hash h)) = length h"
    using assms by (simp add: legible_hash_length)
next
  fix i assume "i < length (legible_hash (illegible_hash h))"
  then have i: "i < 40" by (simp add: legible_hash_length)
  define x where "x = i div 2"
  have x: "x < 20" using i by (simp add: x_def)
  let ?f = "\<lambda>x. h ! (x * 2)" and ?g = "\<lambda>x. h ! (x * 2 + 1)"
  have eq: "legible_hash (illegible_hash h) = concat (map (\<lambda>x. [?f x, ?g x]) [0..<20])"
    unfolding legible_hash_def
    by (rule arg_cong [where f = concat], rule map_cong [OF refl])
       (simp add: illegible_hash_nth_hex assms)
  have "i = x * 2 \<or> i = x * 2 + 1" unfolding x_def by presburger
  then show "legible_hash (illegible_hash h) ! i = h ! i"
    using concat_pairs_nth [OF x, of ?f ?g] unfolding eq by auto
qed

text \<open>
  Claim C8. For every 20-byte binary buffer \<open>b\<close>, converting it to hexadecimal with
  \<^verbatim>\<open>legible_hash\<close> and back with \<^verbatim>\<open>illegible_hash\<close> returns \<open>b\<close>; and for every
  40-character lower-case hexadecimal string \<open>h\<close>, converting it to binary and back
  returns \<open>h\<close>.
\<close>

theorem hash_round_trip:
  "(length b = 20 \<longrightarrow> illegible_hash (legible_hash b) = b) \<and>
   (length h = 40 \<and> lower_hex h \<longrightarrow> legible_hash (illegible_hash h) = h)"
  using illegible_legible legible_illegible by blast

theorem hash_round_trip_witness:
  "length [0x00, 0x01, 0x7f, 0x80, 0xff, 0x0a, 0xa0, 0x9f, 0xf9, 0x10,
           0x3c, 0xc3, 0x5a, 0xa5, 0x66, 0x99, 0xe7, 0x7e, 0xb4, 0x4b :: byte] = 20 \<and>
   illegible_hash (legible_hash
          [0x00, 0x01, 0x7f, 0x80, 0xff, 0x0a, 0xa0, 0x9f, 0xf9, 0x10,
           0x3c, 0xc3, 0x5a, 0xa5, 0x66, 0x99, 0xe7, 0x7e, 0xb4, 0x4b])
     = [0x00, 0x01, 0x7f, 0x80, 0xff, 0x0a, 0xa0, 0x9f, 0xf9, 0x10,
        0x3c, 0xc3, 0x5a, 0xa5, 0x66, 0x99, 0xe7, 0x7e, 0xb4, 0x4b] \<and>
   length ''4b825dc642cb6eb9a060e54bf8d69288fbee4904'' = 40 \<and>
   lower_hex ''4b825dc642cb6eb9a060e54bf8d69288fbee4904'' \<and>
   legible_hash (illegible_hash ''4b825dc642cb6eb9a060e54bf8d69288fbee4904'')
     = ''4b825dc642cb6eb9a060e54bf8d69288fbee4904''"
  using hash_round_trip
    [of "[0x00, 0x01, 0x7f, 0x80, 0xff, 0x0a, 0xa0, 0x9f, 0xf9, 0x10,
          0x3c, 0xc3, 0x5a, 0xa5, 0x66, 0x99, 0xe7, 0x7e, 0xb4, 0x4b]"
        "''4b825dc642cb6eb9a060e54bf8d69288fbee4904''"]
  by (simp add: lower_hex_def)

section \<open>Properties of \<^verbatim>\<open>calculate_object_hash\<close>\<close>

lemma c_div_nonneg: "0 \<le> a \<Longrightarrow> c_div a 10 = a div 10"
  by (cases "a = 0") (simp_all add: c_div_def)

lemma c_div_neg: "a < 0 \<Longrightarrow> c_div a 10 \<le> 0"
  by (simp add: c_div_def sgn_if div_int_pos_iff)

lemma decimal_length_pos: "0 < length (decimal n)"
  by (subst decimal.simps) simp

lemma count_digits_decimal:
  "count_digits (int n) w = w + length (decimal n) - 1"
proof (induction n arbitrary: w rule: decimal.induct)
  case (1 n)
  show ?case
  proof (cases "n < 10")
    case True
    then have "c_div (int n) 10 = 0" by (simp add: c_div_nonneg)
    with True show ?thesis
      by (subst count_digits.simps, subst decimal.simps) simp
  next
    case False
    then have d: "c_div (int n) 10 = int (n div 10)" "0 < n div 10"
      by (simp_all add: c_div_nonneg zdiv_int div_greater_zero_iff)
    have "count_digits (int n) w = count_digits (int (n div 10)) (w + 1)"
      using d by (subst count_digits.simps) simp
    also have "\<dots> = w + 1 + length (decimal (n div 10)) - 1"
      using "1.IH" [OF False] .
    also have "\<dots> = w + length (decimal n) - 1"
      using False by (subst (2) decimal.simps) simp
    finally show ?thesis .
  qed
qed

lemma count_digits_negative: "digits < 0 \<Longrightarrow> count_digits digits w = w"
  using c_div_neg [of digits] by (subst count_digits.simps) simp

lemma sint_u32_small: "unat (n :: u32) < 2 ^ 31 \<Longrightarrow> sint n = int (unat n)"
proof -
  assume "unat n < 2 ^ 31"
  then have "int (unat n) < int (2 ^ 31)" by (simp only: of_nat_less_iff)
  then have "uint n < 2 ^ 31" by (simp only: uint_nat) simp
  moreover have "- (2 ^ 31) \<le> uint n"
    by (rule order_trans [of _ 0]) simp_all
  ultimately have "signed_take_bit 31 (uint n) = uint n"
    by (rule signed_take_bit_int_eq_self [rotated])
  then have "sint n = uint n" by (simp add: sint_uint)
  then show ?thesis by (simp only: uint_nat)
qed

lemma sint_u32_large: "\<not> unat (n :: u32) < 2 ^ 31 \<Longrightarrow> sint n < 0"
proof -
  assume "\<not> unat n < 2 ^ 31"
  then have "int (2 ^ 31) \<le> int (unat n)" by (simp only: of_nat_le_iff not_less)
  then have lo: "2 ^ 31 \<le> uint n" by (simp only: uint_nat) simp
  have hi: "uint n < 2 ^ 32" using uint_lt2p [of n] by simp
  from lo hi have "uint n div 2 ^ 31 = 1" by simp
  then have "bit (uint n) 31" by (simp add: bit_iff_odd)
  then show ?thesis by (simp add: sint_uint)
qed

lemma header_width_small:
  "unat n < 2 ^ 31 \<Longrightarrow>
     header_width n t = length (types ! t) + length (decimal (unat n)) + 2"
proof -
  assume "unat n < 2 ^ 31"
  then have "header_width n t = length (types ! t) + 3 + length (decimal (unat n)) - 1"
    by (simp only: header_width_def sint_u32_small count_digits_decimal)
  with decimal_length_pos [of "unat n"] show ?thesis by simp
qed

lemma header_width_large:
  "\<not> unat n < 2 ^ 31 \<Longrightarrow> header_width n t = length (types ! t) + 3"
proof -
  assume "\<not> unat n < 2 ^ 31"
  then have "sint n < 0" by (rule sint_u32_large)
  then show ?thesis unfolding header_width_def by (rule count_digits_negative)
qed

text \<open>The printed header, with its NUL, fills \<^verbatim>\<open>header_width\<close> bytes whatever the size.\<close>

lemma object_header_length:
  "length (object_header n t) = header_width n t"
proof (cases "unat n < 2 ^ 31")
  case True
  then show ?thesis
    by (simp add: object_header_def snprintf_def header_width_small)
next
  case False
  have "Suc 0 \<le> length (decimal (unat n))"
    using decimal_length_pos [of "unat n"] by arith
  then have "min (length (decimal (unat n))) (Suc 0) = Suc 0"
    by (rule min_absorb2)
  with False show ?thesis
    by (simp add: object_header_def snprintf_def header_width_large)
qed

lemma object_header_small:
  "unat n < 2 ^ 31 \<Longrightarrow>
     object_header n t = types ! t @ '' '' @ decimal (unat n) @ [CHR 0x00]"
  by (simp add: object_header_def snprintf_def header_width_small)

lemma hex_lower_legible: "length bs = 20 \<Longrightarrow> hex_lower bs = legible_hash bs"
proof -
  assume len: "length bs = 20"
  have "map sprintf_02x bs = map sprintf_02x (map ((!) bs) [0..<length bs])"
    by (simp only: map_nth)
  also have "\<dots> = map (\<lambda>x. sprintf_02x (bs ! x)) [0..<20]"
    by (simp only: map_map o_def len)
  finally have "legible_hash bs = concat (map sprintf_02x bs)"
    by (simp only: legible_hash_def)
  moreover have "sprintf_02x = (\<lambda>b. [''0123456789abcdef'' ! (unat b div 16),
                                       ''0123456789abcdef'' ! (unat b mod 16)])"
    by (rule ext) (simp only: sprintf_02x_def hex_digit_def)
  ultimately show ?thesis
    by (simp only: hex_lower_def)
qed


lemma decimal_length_le: "0 < k \<Longrightarrow> n < 10 ^ k \<Longrightarrow> length (decimal n) \<le> k"
proof (induction k arbitrary: n)
  case 0
  then show ?case by simp
next
  case (Suc k)
  show ?case
  proof (cases "n < 10")
    case True
    then show ?thesis by (subst decimal.simps) simp
  next
    case False
    with Suc.prems have k: "0 < k" by (cases k) simp_all
    from Suc.prems(2) have "n div 10 < 10 ^ k" by (simp add: less_mult_imp_div_less mult.commute)
    from Suc.IH [OF k this] False show ?thesis by (subst decimal.simps) simp
  qed
qed

lemma types_length: "t < 8 \<Longrightarrow> length (types ! t) \<le> 9"
proof -
  assume "t < 8"
  then have "t = 0 \<or> t = 1 \<or> t = 2 \<or> t = 3 \<or> t = 4 \<or> t = 5 \<or> t = 6 \<or> t = 7" by arith
  then show ?thesis by (elim disjE) (simp_all add: types_def)
qed

lemma unat_plus_24: "unat (n :: u32) < 2 ^ 31 \<Longrightarrow> unat (n + 24) = unat n + 24"
proof -
  assume "unat n < 2 ^ 31"
  then have "unat n + unat (24 :: u32) < 2 ^ LENGTH(32)" by simp
  then have "unat (n + 24) = unat n + unat (24 :: u32)" by (simp only: unat_add_lem)
  then show ?thesis by simp
qed

text \<open>Below \<open>2\<^sup>3\<^sup>1\<close> bytes the header and the payload fit the allocation.\<close>

lemma temp_buffer_fits:
  assumes "unat buffer_size < 2 ^ 31" and "t < 8"
  shows "\<not> unat (buffer_size + 24) < header_width buffer_size t + unat buffer_size"
proof -
  have "unat buffer_size < 10 ^ 10" using assms(1) by simp
  then have "length (decimal (unat buffer_size)) \<le> 10" by (intro decimal_length_le) simp_all
  with types_length [OF assms(2)] have "header_width buffer_size t \<le> 21"
    by (simp add: header_width_small [OF assms(1)])
  then show ?thesis by (simp add: unat_plus_24 [OF assms(1)])
qed

text \<open>
  For a payload shorter than \<open>2\<^sup>3\<^sup>1\<close> bytes the function does what the specification
  says, for every type of the table: the header is the type name, a space, the size in
  decimal and a NUL, and the digest is printed as 40 lower-case hexadecimal digits.
\<close>

lemma calculate_object_hash_small:
  assumes "unat buffer_size < 2 ^ 31" and "length buffer = unat buffer_size" and "t < 8"
    and "length (H (bytes_of (types ! t @ '' '' @ decimal (length buffer)) @ [0] @ buffer)) = 20"
  shows "calculate_object_hash H buffer buffer_size t = Inr (spec_object_hash H (types ! t) buffer)"
proof -
  have "bytes_of (object_header buffer_size t) @ take (unat buffer_size) buffer
          = bytes_of (types ! t @ '' '' @ decimal (length buffer)) @ [0] @ buffer"
    using assms(1,2) by (simp add: object_header_small bytes_of_def)
  moreover have "length (bytes_of (object_header buffer_size t) @ take (unat buffer_size) buffer)
          = unat buffer_size + header_width buffer_size t"
    using assms(2) by (simp add: bytes_of_def object_header_length)
  ultimately show ?thesis
    using assms(4) temp_buffer_fits [OF assms(1,3)]
    by (simp add: calculate_object_hash_def spec_object_hash_def hex_lower_legible Let_def)
qed

text \<open>
  From \<open>2\<^sup>3\<^sup>2 - 24\<close> bytes on the size of the allocation wraps and the copy of the
  payload runs past it; so it does for the largest size.
\<close>

lemma calculate_object_hash_wraps:
  "calculate_object_hash H buffer 4294967295 3 = Inl Undefined"
proof -
  have "header_width 4294967295 3 = 7"
    by (simp add: header_width_large types_def)
  then show ?thesis by (simp add: calculate_object_hash_def)
qed

text \<open>
  Claim C6 fails on the code for a payload of \<open>2\<^sup>3\<^sup>1\<close> bytes or more. The size is
  converted to \<^verbatim>\<open>int\<close> to count its digits; it is then negative, the loop counts one
  digit, and \<^verbatim>\<open>snprintf\<close> cuts the header after the first digit of the size. For a blob
  of 2147483648 zero bytes the bytes hashed start with \<^verbatim>\<open>blob 2\<close> and a NUL, where the
  specification has \<^verbatim>\<open>blob 2147483648\<close> and a NUL.
\<close>

theorem calculate_object_hash_large:
  "calculate_object_hash H (replicate 2147483648 0) 2147483648 3
     = Inr (legible_hash (H (bytes_of ''blob 2'' @ 0 # replicate 2147483648 0))) \<and>
   spec_object_hash H ''blob'' (replicate 2147483648 0)
     = hex_lower (H (bytes_of ''blob 2147483648'' @ 0 # replicate 2147483648 0))"
proof -
  have hw: "header_width 2147483648 3 = 7"
    by (simp add: header_width_large types_def)
  have d: "decimal 2147483648 = ''2147483648''"
    by (simp add: decimal.simps)
  then have hd: "object_header 2147483648 3 = ''blob 2'' @ [CHR 0x00]"
    by (simp add: object_header_def hw snprintf_def types_def)
  have "calculate_object_hash H (replicate 2147483648 0) 2147483648 3
          = Inr (legible_hash (H (bytes_of ''blob 2'' @ 0 # replicate 2147483648 0)))"
    by (simp add: calculate_object_hash_def hw hd bytes_of_def)
  moreover have "spec_object_hash H ''blob'' (replicate 2147483648 0)
          = hex_lower (H (bytes_of ''blob 2147483648'' @ 0 # replicate 2147483648 0))"
    by (simp add: spec_object_hash_def d bytes_of_def)
  ultimately show ?thesis by simp
qed

section \<open>Properties of the object store\<close>


lemma plain_index_iff:
  "plain_index s \<longleftrightarrow>
     (\<forall>h i. (h, i) \<in> set (Objects s) \<longrightarrow> i < length (object s) \<and> obj_type (object s ! i) < 6)"
  by (auto simp: plain_index_def list_all_iff)

lemma RB_INSERT_set: "set (RB_INSERT tree key elm) \<subseteq> insert (key, elm) (set tree)"
  by (auto simp: RB_INSERT_def split: option.splits)

lemma RB_FIND_set: "RB_FIND tree key = Some elm \<Longrightarrow> (key, elm) \<in> set tree"
  by (simp add: RB_FIND_def map_of_SomeD)

lemma store_object_Inr:
  assumes "store_object H s t b n p d r = Inr s'"
  shows "\<exists>h. calculate_object_hash H b n t = Inr h \<and>
             s' = (if RB_FIND (Objects s) h \<noteq> None \<and> \<not> repair s then s
                   else s\<lparr>Objects := (if t < 6 then RB_INSERT (Objects s) h (length (object s))
                                       else Objects s),
                           object := object s @ [new_node s h t b n p d r]\<rparr>)"
  using assms by (auto simp: store_object_def and_then_def split: sum.splits if_splits)

lemma store_object_hashed:
  assumes "calculate_object_hash H b n t = Inr h"
  shows "store_object H s t b n p d r =
           Inr (if RB_FIND (Objects s) h \<noteq> None \<and> \<not> repair s then s
                else s\<lparr>Objects := (if t < 6 then RB_INSERT (Objects s) h (length (object s))
                                    else Objects s),
                        object := object s @ [new_node s h t b n p d r]\<rparr>)"
  using assms by (simp add: store_object_def and_then_def)

lemma store_object_cases:
  assumes "store_object H s t b n p d r = Inr s'"
  shows "\<exists>h. calculate_object_hash H b n t = Inr h \<and>
           (s' = s \<or>
            (object s' = object s @ [new_node s h t b n p d r] \<and>
             repair s' = repair s \<and>
             set (Objects s') \<subseteq>
               (if t < 6 then insert (h, length (object s)) (set (Objects s))
                else set (Objects s))))"
proof -
  from store_object_Inr [OF assms] obtain h where
    h: "calculate_object_hash H b n t = Inr h"
    and s': "s' = (if RB_FIND (Objects s) h \<noteq> None \<and> \<not> repair s then s
                   else s\<lparr>Objects := (if t < 6 then RB_INSERT (Objects s) h (length (object s))
                                       else Objects s),
                           object := object s @ [new_node s h t b n p d r]\<rparr>)"
    by blast
  from s' RB_INSERT_set [of "Objects s" h "length (object s)"]
  have "s' = s \<or>
        (object s' = object s @ [new_node s h t b n p d r] \<and> repair s' = repair s \<and>
         set (Objects s') \<subseteq>
           (if t < 6 then insert (h, length (object s)) (set (Objects s)) else set (Objects s)))"
    by (auto split: if_splits)
  with h show ?thesis by blast
qed

lemma new_node_type [simp]: "obj_type (new_node s h t b n p d r) = t"
  by (simp add: new_node_def)

lemma plain_index_store_object:
  assumes "plain_index s" and "store_object H s t b n p d r = Inr s'"
  shows "plain_index s'"
proof -
  from store_object_cases [OF assms(2)] obtain h where
    c: "s' = s \<or>
        (object s' = object s @ [new_node s h t b n p d r] \<and> repair s' = repair s \<and>
         set (Objects s') \<subseteq>
           (if t < 6 then insert (h, length (object s)) (set (Objects s)) else set (Objects s)))"
    by blast
  then show ?thesis
  proof
    assume "s' = s"
    with assms show ?thesis by simp
  next
    assume a: "object s' = object s @ [new_node s h t b n p d r] \<and> repair s' = repair s \<and>
      set (Objects s') \<subseteq>
        (if t < 6 then insert (h, length (object s)) (set (Objects s)) else set (Objects s))"
    show ?thesis
      unfolding plain_index_iff
    proof (intro allI impI)
      fix h' i assume "(h', i) \<in> set (Objects s')"
      with a have "(h', i) \<in> set (Objects s) \<or> (t < 6 \<and> i = length (object s))"
        by (auto split: if_splits)
      then show "i < length (object s') \<and> obj_type (object s' ! i) < 6"
      proof
        assume "(h', i) \<in> set (Objects s)"
        with assms have "i < length (object s)" "obj_type (object s ! i) < 6"
          by (auto simp: plain_index_iff)
        with a show ?thesis by (simp add: nth_append)
      next
        assume "t < 6 \<and> i = length (object s)"
        with a show ?thesis by (simp add: nth_append)
      qed
    qed
  qed
qed

lemma types_kept_iff:
  "types_kept s s' \<longleftrightarrow>
     length (object s) \<le> length (object s') \<and>
     (\<forall>i<length (object s). obj_type (object s' ! i) = obj_type (object s ! i)) \<and>
     (\<forall>i. length (object s) \<le> i \<and> i < length (object s') \<longrightarrow> obj_type (object s' ! i) < 6)"
  (is "?L \<longleftrightarrow> ?R")
proof
  assume l: ?L
  let ?n = "length (object s)"
  from l have m: "map obj_type (take ?n (object s')) = map obj_type (object s)"
    and d: "list_all (\<lambda>obj. obj_type obj < 6) (drop ?n (object s'))"
    by (simp_all add: types_kept_def)
  from m have "length (take ?n (object s')) = ?n"
    by (metis length_map)
  then have len: "?n \<le> length (object s')" by simp
  have "\<forall>i<?n. obj_type (object s' ! i) = obj_type (object s ! i)"
  proof (intro allI impI)
    fix i assume i: "i < ?n"
    then have "map obj_type (take ?n (object s')) ! i = obj_type (object s' ! i)"
      using len by simp
    with m i show "obj_type (object s' ! i) = obj_type (object s ! i)" by simp
  qed
  moreover have "\<forall>i. ?n \<le> i \<and> i < length (object s') \<longrightarrow> obj_type (object s' ! i) < 6"
  proof (intro allI impI)
    fix i assume i: "?n \<le> i \<and> i < length (object s')"
    then have "drop ?n (object s') ! (i - ?n) = object s' ! i"
      by simp
    moreover from i have "i - ?n < length (drop ?n (object s'))"
      by (simp only: length_drop) arith
    ultimately have "drop ?n (object s') ! (i - ?n) = object s' ! i"
      "i - ?n < length (drop ?n (object s'))" by simp_all
    with d show "obj_type (object s' ! i) < 6"
      by (metis list_all_length)
  qed
  ultimately show ?R using len by blast
next
  assume r: ?R
  let ?n = "length (object s)"
  have "map obj_type (take ?n (object s')) = map obj_type (object s)"
    using r by (intro nth_equalityI) simp_all
  moreover have "list_all (\<lambda>obj. obj_type obj < 6) (drop ?n (object s'))"
    using r by (simp add: list_all_length)
  ultimately show ?L by (simp add: types_kept_def)
qed

lemma types_kept_refl: "types_kept s s"
  by (simp add: types_kept_def)

lemma types_kept_trans:
  assumes "types_kept s s'" "types_kept s' s''"
  shows "types_kept s s''"
  unfolding types_kept_iff
proof (intro conjI allI impI)
  show "length (object s) \<le> length (object s'')"
    using assms by (simp add: types_kept_iff)
next
  fix i assume "i < length (object s)"
  then show "obj_type (object s'' ! i) = obj_type (object s ! i)"
    using assms by (simp add: types_kept_iff)
next
  fix i assume i: "length (object s) \<le> i \<and> i < length (object s'')"
  show "obj_type (object s'' ! i) < 6"
  proof (cases "i < length (object s')")
    case True
    with i assms show ?thesis by (simp add: types_kept_iff)
  next
    case False
    with i assms(2) show ?thesis by (simp add: types_kept_iff)
  qed
qed

lemma types_kept_store_object:
  "t < 6 \<Longrightarrow> store_object H s t b n p d r = Inr s' \<Longrightarrow> types_kept s s'"
  using store_object_cases [of H s t b n p d r s']
  by (auto simp: types_kept_def)

lemma types_kept_same_types:
  "map obj_type (object s') = map obj_type (object s) \<Longrightarrow> types_kept s s'"
proof -
  assume a: "map obj_type (object s') = map obj_type (object s)"
  then have "length (object s') = length (object s)" by (metis length_map)
  with a show ?thesis by (simp add: types_kept_def)
qed

lemma plain_index_same_types:
  assumes "plain_index s" "map obj_type (object s') = map obj_type (object s)"
    "Objects s' = Objects s"
  shows "plain_index s'"
proof -
  have len: "length (object s') = length (object s)" using assms(2) by (metis length_map)
  have "obj_type (object s' ! i) = obj_type (object s ! i)" if "i < length (object s)" for i
    using that assms(2) len by (metis nth_map)
  with assms(1,3) len show ?thesis by (auto simp: plain_index_iff)
qed

lemma set_buffer_types:
  "map obj_type (xs[i := (xs ! i)\<lparr>obj_buffer := b\<rparr>]) = map obj_type xs"
proof (rule nth_equalityI)
  show "length (map obj_type (xs[i := (xs ! i)\<lparr>obj_buffer := b\<rparr>])) = length (map obj_type xs)"
    by simp
next
  fix j assume "j < length (map obj_type (xs[i := (xs ! i)\<lparr>obj_buffer := b\<rparr>]))"
  then have j: "j < length xs" by simp
  then show "map obj_type (xs[i := (xs ! i)\<lparr>obj_buffer := b\<rparr>]) ! j = map obj_type xs ! j"
    by (cases "j = i") simp_all
qed

lemma release_buffer_same:
  "map obj_type (object (release_buffer s i)) = map obj_type (object s)"
  "Objects (release_buffer s i) = Objects s"
  by (simp_all add: release_buffer_def set_buffer_types)

lemma load_buffer_same:
  assumes "load_buffer s i = Inr s'"
  shows "map obj_type (object s') = map obj_type (object s)" "Objects s' = Objects s"
  using assms
  by (auto simp: load_buffer_def Let_def set_buffer_types split: if_splits)


lemma index_kept_iff:
  "index_kept s s' \<longleftrightarrow>
     (\<forall>h j. RB_FIND (Objects s) h = Some j \<longrightarrow> RB_FIND (Objects s') h = Some j)"
proof
  assume k: "index_kept s s'"
  show "\<forall>h j. RB_FIND (Objects s) h = Some j \<longrightarrow> RB_FIND (Objects s') h = Some j"
  proof (intro allI impI)
    fix h j assume f: "RB_FIND (Objects s) h = Some j"
    then have "(h, j) \<in> set (Objects s)" by (rule RB_FIND_set)
    with k have "RB_FIND (Objects s') h = RB_FIND (Objects s) h"
      by (auto simp: index_kept_def list_all_iff)
    with f show "RB_FIND (Objects s') h = Some j" by simp
  qed
next
  assume a: "\<forall>h j. RB_FIND (Objects s) h = Some j \<longrightarrow> RB_FIND (Objects s') h = Some j"
  show "index_kept s s'"
    unfolding index_kept_def list_all_iff
  proof (intro ballI, clarify)
    fix h j assume "(h, j) \<in> set (Objects s)"
    then have "h \<in> fst ` set (Objects s)" by force
    then have "map_of (Objects s) h \<noteq> None" by (simp only: map_of_eq_None_iff not_not)
    then obtain j' where "map_of (Objects s) h = Some j'" by blast
    then have "RB_FIND (Objects s) h = Some j'" by (simp add: RB_FIND_def)
    with a show "RB_FIND (Objects s') h = RB_FIND (Objects s) h" by simp
  qed
qed

lemma index_kept_same: "Objects s' = Objects s \<Longrightarrow> index_kept s s'"
  by (simp add: index_kept_iff)

lemma RB_INSERT_find:
  "RB_FIND tree k = Some j \<Longrightarrow> RB_FIND (RB_INSERT tree k' v) k = Some j"
  by (auto simp: RB_FIND_def RB_INSERT_def split: option.splits)


lemma nodes_kept_iff:
  "nodes_kept s s' \<longleftrightarrow>
     length (object s) \<le> length (object s') \<and>
     (\<forall>i<length (object s).
        (object s' ! i)\<lparr>obj_buffer := None\<rparr> = (object s ! i)\<lparr>obj_buffer := None\<rparr> \<and>
        (low_memory s \<or> object s' ! i = object s ! i))"
  (is "?L \<longleftrightarrow> ?R")
proof
  assume l: ?L
  let ?n = "length (object s)"
  let ?f = "\<lambda>node :: object_node. node\<lparr>obj_buffer := None\<rparr>"
  from l have m: "map ?f (take ?n (object s')) = map ?f (object s)"
    and e: "low_memory s \<or> take ?n (object s') = object s"
    by (simp_all add: nodes_kept_def)
  from m have "length (take ?n (object s')) = ?n" by (metis length_map)
  then have len: "?n \<le> length (object s')" by simp
  have "?f (object s' ! i) = ?f (object s ! i) \<and> (low_memory s \<or> object s' ! i = object s ! i)"
    if i: "i < ?n" for i
  proof
    from i len have "map ?f (take ?n (object s')) ! i = ?f (object s' ! i)" by simp
    with m i show "?f (object s' ! i) = ?f (object s ! i)" by simp
    from e show "low_memory s \<or> object s' ! i = object s ! i"
    proof
      assume "take ?n (object s') = object s"
      then have "take ?n (object s') ! i = object s ! i" by simp
      with i show ?thesis by simp
    qed simp
  qed
  with len show ?R by blast
next
  assume r: ?R
  let ?n = "length (object s)"
  have "map (\<lambda>node. node\<lparr>obj_buffer := None\<rparr>) (take ?n (object s'))
          = map (\<lambda>node. node\<lparr>obj_buffer := None\<rparr>) (object s)"
    using r by (intro nth_equalityI) simp_all
  moreover have "low_memory s \<or> take ?n (object s') = object s"
  proof (cases "low_memory s")
    case False
    with r have "take ?n (object s') = object s" by (intro nth_equalityI) simp_all
    then show ?thesis by simp
  qed simp
  ultimately show ?L by (simp add: nodes_kept_def)
qed

lemma pass_kept_refl: "pass_kept s s"
  by (simp add: pass_kept_def types_kept_refl index_kept_iff nodes_kept_iff)

lemma pass_kept_trans:
  assumes "pass_kept s s'" "pass_kept s' s''"
  shows "pass_kept s s''"
proof -
  from assms have n: "nodes_kept s s'" "nodes_kept s' s''" and lm: "low_memory s' = low_memory s"
    by (simp_all add: pass_kept_def)
  have "nodes_kept s s''"
    unfolding nodes_kept_iff
  proof (intro conjI allI impI)
    show "length (object s) \<le> length (object s'')" using n by (simp add: nodes_kept_iff)
  next
    fix i assume i: "i < length (object s)"
    with n(1) have i': "i < length (object s')" by (simp add: nodes_kept_iff)
    from n(1) i n(2) i'
    show "(object s'' ! i)\<lparr>obj_buffer := None\<rparr> = (object s ! i)\<lparr>obj_buffer := None\<rparr>"
      by (simp add: nodes_kept_iff)
    from n(1) i n(2) i' lm
    show "low_memory s \<or> object s'' ! i = object s ! i"
      by (auto simp: nodes_kept_iff)
  qed
  with assms types_kept_trans [of s s' s''] show ?thesis
    by (auto simp: pass_kept_def index_kept_iff)
qed


lemma pass_kept_type:
  "pass_kept s s' \<Longrightarrow> i < length (object s) \<Longrightarrow> obj_type (object s' ! i) = obj_type (object s ! i)"
  by (simp add: pass_kept_def types_kept_iff)




text \<open>A buffer that is loaded or released, which happens in the low-memory mode only.\<close>

lemma pass_kept_buffer:
  assumes "low_memory s"
  shows "pass_kept s (s\<lparr>object := (object s)[i := (object s ! i)\<lparr>obj_buffer := b\<rparr>]\<rparr>)"
proof -
  let ?s' = "s\<lparr>object := (object s)[i := (object s ! i)\<lparr>obj_buffer := b\<rparr>]\<rparr>"
  have "types_kept s ?s'" by (intro types_kept_same_types) (simp add: set_buffer_types)
  moreover have "index_kept s ?s'" by (intro index_kept_same) simp
  moreover have "((object s)[i := (object s ! i)\<lparr>obj_buffer := b\<rparr>] ! j)\<lparr>obj_buffer := None\<rparr>
                   = (object s ! j)\<lparr>obj_buffer := None\<rparr>" if "j < length (object s)" for j
    using that by (cases "j = i") simp_all
  then have "nodes_kept s ?s'"
    unfolding nodes_kept_iff using assms by simp
  ultimately show ?thesis by (simp add: pass_kept_def)
qed

lemma pass_kept_store_object:
  assumes "t < 6" and "store_object H s t b n p d r = Inr s'"
  shows "pass_kept s s'"
proof -
  from store_object_Inr [OF assms(2)] obtain h where
    s': "s' = (if RB_FIND (Objects s) h \<noteq> None \<and> \<not> repair s then s
               else s\<lparr>Objects := (if t < 6 then RB_INSERT (Objects s) h (length (object s))
                                   else Objects s),
                       object := object s @ [new_node s h t b n p d r]\<rparr>)"
    by blast
  then have "index_kept s s'" "repair s' = repair s" "low_memory s' = low_memory s"
    "back_store s' = back_store s" "nodes_kept s s'"
    by (auto simp: index_kept_iff nodes_kept_iff RB_INSERT_find nth_append split: if_splits)
  with types_kept_store_object [OF assms] show ?thesis by (simp add: pass_kept_def)
qed

section \<open>Properties of the delta pass\<close>

subsection \<open>What every step of \<^verbatim>\<open>apply_deltas\<close> keeps\<close>

lemma pass_load_buffer:
  assumes "plain_index s" "load_buffer s i = Inr s'"
  shows "plain_index s' \<and> pass_kept s s'"
proof -
  from assms(2) have "s' = s \<or>
      (low_memory s \<and>
       (\<exists>b. s' = s\<lparr>object := (object s)[i := (object s ! i)\<lparr>obj_buffer := b\<rparr>]\<rparr>))"
    by (auto simp: load_buffer_def Let_def split: if_splits)
  then have "pass_kept s s'" by (auto simp: pass_kept_refl pass_kept_buffer)
  moreover from assms load_buffer_same [OF assms(2)] have "plain_index s'"
    by (blast intro: plain_index_same_types)
  ultimately show ?thesis by simp
qed

lemma pass_release_buffer:
  assumes "plain_index s"
  shows "plain_index (release_buffer s i) \<and> pass_kept s (release_buffer s i)"
proof -
  have "pass_kept s (release_buffer s i)"
    by (simp add: release_buffer_def pass_kept_refl pass_kept_buffer)
  moreover from assms release_buffer_same [of s i] have "plain_index (release_buffer s i)"
    by (blast intro: plain_index_same_types)
  ultimately show ?thesis by simp
qed

lemma pass_store_object:
  assumes "plain_index s" "t < 6" "store_object H s t b n p d r = Inr s'"
  shows "plain_index s' \<and> pass_kept s s'"
  using assms by (simp add: plain_index_store_object [OF assms(1,3)] pass_kept_store_object)

lemma pass_load_object:
  assumes "plain_index s" "load_object H s h path = Inr s'"
  shows "plain_index s' \<and> pass_kept s s'"
proof (cases "RB_FIND (Objects s) h \<noteq> None")
  case True
  with assms show ?thesis by (simp add: load_object_def pass_kept_refl)
next
  case False
  with assms(2) have "s' = s \<or> (\<exists>b n. store_object H s 3 b n 0 0 None = Inr s')"
    by (auto simp: load_object_def and_then_def Let_def
             split: option.splits sum.splits if_splits prod.splits)
  with assms(1) show ?thesis
    using pass_store_object [OF assms(1), of 3] by (auto simp: pass_kept_refl)
qed

lemma pass_apply_stored_delta:
  assumes "plain_index s" "apply_stored_delta (s, m, l, n) i = Inr (s', m', l', n')"
  shows "plain_index s' \<and> pass_kept s s'"
proof -
  from assms(2) obtain s1 where s1: "load_buffer s i = Inr s1" and s': "s' = release_buffer s1 i"
    by (auto simp: apply_stored_delta_def and_then_def
             split: if_splits sum.splits option.splits prod.splits)
  from pass_load_buffer [OF assms(1) s1] have 1: "plain_index s1" "pass_kept s s1" by simp_all
  from pass_release_buffer [OF 1(1), of i] s' have "plain_index s'" "pass_kept s1 s'" by simp_all
  with 1 show ?thesis by (blast intro: pass_kept_trans)
qed

lemma pass_apply_chain:
  assumes "plain_index s" "apply_chain (s, m, l, n) deltas = Inr (s', m', l', n')"
  shows "plain_index s' \<and> pass_kept s s'"
  using assms
proof (induction deltas arbitrary: s m l n)
  case Nil
  then show ?case by (simp add: pass_kept_refl)
next
  case (Cons i deltas)
  from Cons.prems(2) obtain s1 m1 l1 n1 where
    1: "apply_stored_delta (s, m, l, n) i = Inr (s1, m1, l1, n1)"
    and 2: "apply_chain (s1, m1, l1, n1) deltas = Inr (s', m', l', n')"
    by (auto simp: and_then_def split: sum.splits)
  from pass_apply_stored_delta [OF Cons.prems(1) 1]
  have p1: "plain_index s1" "pass_kept s s1" by simp_all
  from Cons.IH [OF p1(1) 2] p1(2) show ?case by (blast intro: pass_kept_trans)
qed

lemma pass_find_chain:
  assumes "plain_index s" "find_chain H s i = Inr (s', deltas, lookup)"
  shows "plain_index s' \<and> pass_kept s s'"
proof -
  from assms(2) obtain delta ds where
    w: "walk_ofs_deltas (object s) (object s ! i) [] = Inr (delta, ds)"
    by (auto simp: find_chain_def and_then_def split: sum.splits)
  show ?thesis
  proof (cases "obj_type delta = 7")
    case True
    with assms(2) w obtain h where "load_object H s h None = Inr s'"
      by (auto simp: find_chain_def and_then_def split: if_splits option.splits sum.splits)
    with assms(1) show ?thesis by (rule pass_load_object)
  next
    case False
    with assms(2) w have "s' = s"
      by (auto simp: find_chain_def and_then_def split: if_splits)
    with assms(1) show ?thesis by (simp add: pass_kept_refl)
  qed
qed

lemma pass_merge_chain:
  assumes "plain_index s" "obj_type (object s ! base) < 6" "base < length (object s)"
    and "merge_chain H s base deltas l n = Inr (s', l', n')"
  shows "plain_index s' \<and> pass_kept s s'"
proof -
  from assms(4) obtain s2 where s2: "load_buffer s base = Inr s2"
    by (auto simp: merge_chain_def and_then_def split: sum.splits)
  with assms(4) obtain mb where mb: "copy_base (object s2 ! base) = Inr mb"
    by (auto simp: merge_chain_def and_then_def split: sum.splits)
  with assms(4) s2 obtain s3 m3 l3 n3 where
    s3: "apply_chain (s2, mb, l, n) (rev deltas) = Inr (s3, m3, l3, n3)"
    by (auto simp: merge_chain_def and_then_def split: sum.splits)
  let ?s4 = "release_buffer s3 base"
  from assms(4) s2 mb s3
  have s': "store_object H ?s4 (obj_type (object ?s4 ! base)) m3 n3 0 0 None = Inr s'"
    by (auto simp: merge_chain_def and_then_def Let_def split: sum.splits)
  from pass_load_buffer [OF assms(1) s2] have p2: "plain_index s2" "pass_kept s s2" by simp_all
  from pass_apply_chain [OF p2(1) s3] have p3: "plain_index s3" "pass_kept s2 s3" by simp_all
  from pass_release_buffer [OF p3(1), of base]
  have p4: "plain_index ?s4" "pass_kept s3 ?s4" by simp_all
  have "pass_kept s ?s4" using p2(2) p3(2) p4(2) by (blast intro: pass_kept_trans)
  then have "obj_type (object ?s4 ! base) = obj_type (object s ! base)"
    using assms(3) by (simp add: pass_kept_type)
  with assms(2) have t: "obj_type (object ?s4 ! base) < 6" by simp
  from pass_store_object [OF p4(1) t s']
  have "plain_index s'" "pass_kept ?s4 s'" by simp_all
  with \<open>pass_kept s ?s4\<close> show ?thesis by (blast intro: pass_kept_trans)
qed

lemma pass_resolve_delta:
  assumes "plain_index s" "resolve_delta H (s, l, n) i = Inr (s', l', n')"
  shows "plain_index s' \<and> pass_kept s s'"
proof (cases "obj_type (object s ! i) < 6")
  case True
  with assms show ?thesis by (simp add: resolve_delta_def pass_kept_refl)
next
  case False
  with assms(2) obtain s1 deltas lookup where
    c: "find_chain H s i = Inr (s1, deltas, lookup)"
    by (auto simp: resolve_delta_def and_then_def split: sum.splits)
  with assms(2) False obtain base where
    base: "RB_FIND (Objects s1) lookup = Some base"
    by (auto simp: resolve_delta_def and_then_def split: option.splits)
  with assms(2) False c have lt: "base < length (object s1)"
    and m: "merge_chain H s1 base deltas l n = Inr (s', l', n')"
    by (auto simp: resolve_delta_def and_then_def split: if_splits)
  from pass_find_chain [OF assms(1) c] have p1: "plain_index s1" "pass_kept s s1" by simp_all
  have "(lookup, base) \<in> set (Objects s1)" using base by (rule RB_FIND_set)
  with p1(1) have "obj_type (object s1 ! base) < 6" by (auto simp: plain_index_iff)
  from pass_merge_chain [OF p1(1) this lt m] p1(2)
  show ?thesis by (blast intro: pass_kept_trans)
qed

lemma pass_apply_deltas_loop:
  assumes "plain_index s" "apply_deltas_loop H k (s, l, n) = Inr (s', l', n')"
  shows "plain_index s' \<and> pass_kept s s'"
  using assms
proof (induction k arbitrary: s l n)
  case 0
  then show ?case by (simp add: pass_kept_refl)
next
  case (Suc k)
  from Suc.prems(2) obtain s1 l1 n1 where
    1: "resolve_delta H (s, l, n) k = Inr (s1, l1, n1)"
    and 2: "apply_deltas_loop H k (s1, l1, n1) = Inr (s', l', n')"
    by (auto simp: and_then_def split: sum.splits)
  from pass_resolve_delta [OF Suc.prems(1) 1]
  have p1: "plain_index s1" "pass_kept s s1" by simp_all
  from Suc.IH [OF p1(1) 2] p1(2) show ?case by (blast intro: pass_kept_trans)
qed

lemma pass_apply_deltas:
  assumes "plain_index s" "apply_deltas H s = Inr s'"
  shows "plain_index s' \<and> pass_kept s s'"
proof -
  from assms(2) obtain l' n' where
    "apply_deltas_loop H (length (object s)) (s, [], 0) = Inr (s', l', n')"
    by (auto simp: apply_deltas_def and_then_def split: sum.splits prod.splits)
  with assms(1) show ?thesis by (rule pass_apply_deltas_loop)
qed

subsection \<open>A chain of one ofs-delta\<close>

lemma load_buffer_normal: "\<not> low_memory s \<Longrightarrow> load_buffer s i = Inr s"
  by (simp add: load_buffer_def)

lemma release_buffer_normal: "\<not> low_memory s \<Longrightarrow> release_buffer s i = s"
  by (simp add: release_buffer_def)

lemma resolve_delta_plain:
  "obj_type (object s ! i) < 6 \<Longrightarrow> resolve_delta H (s, l, n) i = Inr (s, l, n)"
  by (simp add: resolve_delta_def)

text \<open>
  A delta chain of one ofs-delta in the normal memory mode: the delta at position \<open>i\<close> has
  the plain object at position \<open>b\<close> as its base.
\<close>

lemma find_chain_one_ofs:
  assumes "obj_type (object s ! i) = 6"
    and "unat (obj_index_delta (object s ! i)) = b" and "b < length (object s)"
    and "obj_type (object s ! b) < 6"
  shows "find_chain H s i = Inr (s, [obj_index (object s ! i)], obj_hash (object s ! b))"
proof -
  have "walk_ofs_deltas (object s) (object s ! i) []
          = walk_ofs_deltas (object s) (object s ! b) [obj_index (object s ! i)]"
    using assms(1,2,3) by (subst walk_ofs_deltas.simps) simp
  also have "\<dots> = Inr (object s ! b, [obj_index (object s ! i)])"
    using assms(4) by (subst walk_ofs_deltas.simps) simp
  finally show ?thesis
    using assms(4) by (simp add: find_chain_def and_then_def)
qed

lemma apply_stored_delta_normal:
  assumes "\<not> low_memory s" "i < length (object s)" "obj_buffer (object s ! i) = Some buffer"
  shows "apply_stored_delta (s, m, l, n) i =
           and_then (apply_delta buffer (obj_buffer_size (object s ! i)) m l)
             (\<lambda>(m', l', n'). Inr (s, m', l', n'))"
  using assms
  by (simp add: apply_stored_delta_def load_buffer_normal release_buffer_normal and_then_def)

lemma resolve_delta_one_ofs:
  assumes "\<not> low_memory s"
    and "obj_type (object s ! i) = 6"
    and "unat (obj_index_delta (object s ! i)) = b" and "b < length (object s)"
    and "obj_type (object s ! b) < 6"
    and "RB_FIND (Objects s) (obj_hash (object s ! b)) = Some b'" and "b' < length (object s)"
    and "copy_base (object s ! b') = Inr m"
    and "obj_index (object s ! i) = j" and "j < length (object s)"
    and "obj_buffer (object s ! j) = Some buffer"
  shows "resolve_delta H (s, l, n) i =
           and_then (apply_delta buffer (obj_buffer_size (object s ! j)) m l)
             (\<lambda>(m', l', n').
                and_then (store_object H s (obj_type (object s ! b')) m' n' 0 0 None)
                  (\<lambda>s. Inr (s, l', n')))"
proof -
  have c: "find_chain H s i = Inr (s, [j], obj_hash (object s ! b))"
    using find_chain_one_ofs [OF assms(2,3,4,5)] assms(9) by simp
  have "merge_chain H s b' [j] l n =
          and_then (apply_delta buffer (obj_buffer_size (object s ! j)) m l)
            (\<lambda>(m', l', n').
               and_then (store_object H s (obj_type (object s ! b')) m' n' 0 0 None)
                 (\<lambda>s. Inr (s, l', n')))"
    using assms(1,8)
    by (simp add: merge_chain_def load_buffer_normal release_buffer_normal
          apply_stored_delta_normal [OF assms(1,10,11)] and_then_def
        split: sum.splits)
  then show ?thesis
    using assms(2,6,7) c by (simp add: resolve_delta_def and_then_def)
qed

subsection \<open>The example pack\<close>

lemma example_pack_value:
  "example_pack =
   \<lparr>object =
    [\<lparr>obj_hash = ''636f6d6d69742031330074726565203462383235'', obj_type = 1,
        obj_index = 0, obj_index_delta = 0, obj_ref_delta_hash = None,
        obj_pack_offset = 12,
        obj_buffer = Some [116, 114, 101, 101, 32, 52, 98, 56, 50, 53, 100, 99, 54],
        obj_buffer_size = 13, obj_file_offset = 4294967295, obj_can_free = True\<rparr>,
     \<lparr>obj_hash = ''626c6f6220340001020304000000000000000000'', obj_type = 3,
        obj_index = 1, obj_index_delta = 0, obj_ref_delta_hash = None,
        obj_pack_offset = 40, obj_buffer = Some [1, 2, 3, 4],
        obj_buffer_size = 4, obj_file_offset = 4294967295, obj_can_free = True\<rparr>,
     \<lparr>obj_hash = ''6f66732d64656c74612031310004069101020341'', obj_type = 6,
        obj_index = 2, obj_index_delta = 1, obj_ref_delta_hash = None,
        obj_pack_offset = 60,
        obj_buffer = Some [4, 6, 145, 1, 2, 3, 65, 66, 67, 144, 1],
        obj_buffer_size = 11, obj_file_offset = 4294967295, obj_can_free = True\<rparr>],
    Objects =
      [(''636f6d6d69742031330074726565203462383235'', 0),
       (''626c6f6220340001020304000000000000000000'', 1)],
    repair = False, low_memory = False, back_store = [], Local_Hash = [],
    Local_Path = [], Remote_Path = [], ignore = [], files = []\<rparr>"
  by code_simp

lemma example_delta_applied:
  "apply_delta [4, 6, 145, 1, 2, 3, 65, 66, 67, 144, 1] 11 [1, 2, 3, 4] []
     = Inr ([2, 3, 65, 66, 67, 1], [2, 3, 65, 66, 67, 1], 6)"
  by code_simp


text \<open>An object of a type of the table and of less than \<open>2\<^sup>3\<^sup>1\<close> bytes is hashed.\<close>

lemma calculate_object_hash_fits:
  assumes "unat n < 2 ^ 31" and "t < 8"
  shows "\<exists>h. calculate_object_hash H b n t = Inr h"
  using temp_buffer_fits [OF assms] by (simp add: calculate_object_hash_def Let_def)

lemma store_object_fits:
  assumes "unat n < 2 ^ 31" and "t < 8"
  shows "\<exists>s'. store_object H s t b n p d r = Inr s'"
proof -
  from calculate_object_hash_fits [OF assms] obtain h where
    "calculate_object_hash H b n t = Inr h" by blast
  then show ?thesis by (simp add: store_object_hashed)
qed

lemma example_resolve_delta:
  "resolve_delta H (example_pack, [], 0) 2 =
     and_then (store_object H example_pack 3 [2, 3, 65, 66, 67, 1] 6 0 0 None)
       (\<lambda>s. Inr (s, [2, 3, 65, 66, 67, 1], 6))"
proof -
  have "resolve_delta H (example_pack, [], 0) 2 =
          and_then (apply_delta [4, 6, 145, 1, 2, 3, 65, 66, 67, 144, 1]
                      (obj_buffer_size (object example_pack ! 2)) [1, 2, 3, 4] [])
            (\<lambda>(m', l', n').
               and_then (store_object H example_pack (obj_type (object example_pack ! 1))
                           m' n' 0 0 None)
                 (\<lambda>s. Inr (s, l', n')))"
    by (rule resolve_delta_one_ofs [where b = 1 and j = 2])
       (simp_all add: example_pack_value RB_FIND_def copy_base_def fetch_def)
  then show ?thesis
    by (simp add: example_pack_value example_delta_applied and_then_def)
qed

lemma store_object_nth:
  "store_object H s t b n p d r = Inr s' \<Longrightarrow> i < length (object s) \<Longrightarrow>
     object s' ! i = object s ! i"
  using store_object_cases [of H s t b n p d r s'] by (auto simp: nth_append)

lemma example_apply_deltas:
  "apply_deltas H example_pack = store_object H example_pack 3 [2, 3, 65, 66, 67, 1] 6 0 0 None"
proof -
  obtain s' where s': "store_object H example_pack 3 [2, 3, 65, 66, 67, 1] 6 0 0 None = Inr s'"
    using store_object_fits [of 6 3 H example_pack "[2, 3, 65, 66, 67, 1]" 0 0 None] by auto
  have len: "length (object example_pack) = Suc (Suc (Suc 0))"
    by (simp add: example_pack_value)
  have t1: "obj_type (object s' ! Suc 0) < 6" and t0: "obj_type (object s' ! 0) < 6"
    by (simp_all add: store_object_nth [OF s'] len) (simp_all add: example_pack_value)
  have 2: "resolve_delta H (example_pack, [], 0) (Suc (Suc 0)) = Inr (s', [2, 3, 65, 66, 67, 1], 6)"
    using example_resolve_delta [of H] by (simp add: numeral_2_eq_2 s' and_then_def)
  show ?thesis
    by (simp add: apply_deltas_def len 2 s' and_then_def resolve_delta_plain [OF t1]
          resolve_delta_plain [OF t0])
qed

lemma example_blob_hash:
  "calculate_object_hash example_digest [1, 2, 3, 4] 4 3
     = Inr ''626c6f6220340001020304000000000000000000''"
  by code_simp

lemma plain_index_empty: "plain_index empty_state"
  by (simp add: plain_index_def empty_state_def)

lemma plain_index_example: "plain_index example_pack"
  by (simp add: plain_index_def example_pack_value)

lemma find_object_plain:
  assumes "plain_index s" "find_object s h = Some node"
  shows "obj_type node < 6"
proof -
  from assms(2) obtain i where "RB_FIND (Objects s) h = Some i" "node = object s ! i"
    by (auto simp: find_object_def)
  with assms(1) RB_FIND_set [of "Objects s" h i] show ?thesis
    by (auto simp: plain_index_iff)
qed

lemma store_object_duplicate_repair:
  assumes "calculate_object_hash H b n t = Inr h" "RB_FIND (Objects s) h = Some i" "repair s"
  shows "store_object H s t b n p d r
           = Inr (s\<lparr>object := object s @ [new_node s h t b n p d r]\<rparr>)"
  using assms by (simp add: store_object_hashed RB_INSERT_def RB_FIND_def)

lemma store_object_duplicate_lookup:
  assumes "plain_index s" and "RB_FIND (Objects s) h = Some i"
  shows "find_object (s\<lparr>object := object s @ [node]\<rparr>) h = Some (object s ! i)"
proof -
  have "i < length (object s)"
    using assms RB_FIND_set [of "Objects s" _ i] by (auto simp: plain_index_iff)
  then show ?thesis
    using assms(2) by (simp add: find_object_def nth_append)
qed

lemma plain_index_repair: "plain_index (s\<lparr>repair := x\<rparr>) = plain_index s"
  by (simp add: plain_index_def)

lemma example_delta_stored:
  "store_object example_digest example_pack 7 [1, 2] 2 80 0 (Some (replicate 20 0))
     = Inr (example_pack\<lparr>object := object example_pack @
         [new_node example_pack ''7265662d64656c74612032000102000000000000'' 7 [1, 2] 2 80 0
            (Some (replicate 20 0))]\<rparr>)"
proof -
  have h: "calculate_object_hash example_digest [1, 2] 2 7
             = Inr ''7265662d64656c74612032000102000000000000''"
    by code_simp
  have "RB_FIND (Objects example_pack) ''7265662d64656c74612032000102000000000000'' = None"
    by (simp add: example_pack_value RB_FIND_def)
  then show ?thesis by (simp add: store_object_hashed [OF h])
qed

lemma example_resolved_stored:
  "store_object example_digest example_pack 3 [2, 3, 65, 66, 67, 1] 6 0 0 None
     = Inr example_resolved"
proof -
  obtain s' where
    "store_object example_digest example_pack 3 [2, 3, 65, 66, 67, 1] 6 0 0 None = Inr s'"
    using store_object_fits [of 6 3 example_digest example_pack "[2, 3, 65, 66, 67, 1]" 0 0 None]
    by auto
  then show ?thesis by (simp add: example_resolved_def stored_def)
qed



subsection \<open>The pack with a delta that does not fit its base\<close>

lemma example_bad_pack_value:
  "example_bad_pack =
   \<lparr>object =
    [\<lparr>obj_hash = ''636f6d6d69742031330074726565203462383235'', obj_type = 1,
        obj_index = 0, obj_index_delta = 0, obj_ref_delta_hash = None,
        obj_pack_offset = 12,
        obj_buffer = Some [116, 114, 101, 101, 32, 52, 98, 56, 50, 53, 100, 99, 54],
        obj_buffer_size = 13, obj_file_offset = 4294967295, obj_can_free = True\<rparr>,
     \<lparr>obj_hash = ''626c6f6220310041000000000000000000000000'', obj_type = 3,
        obj_index = 1, obj_index_delta = 0, obj_ref_delta_hash = None,
        obj_pack_offset = 40, obj_buffer = Some [65], obj_buffer_size = 1,
        obj_file_offset = 4294967295, obj_can_free = True\<rparr>,
     \<lparr>obj_hash = ''6f66732d64656c74612034000104900400000000'', obj_type = 6,
        obj_index = 2, obj_index_delta = 1, obj_ref_delta_hash = None,
        obj_pack_offset = 60, obj_buffer = Some [1, 4, 144, 4],
        obj_buffer_size = 4, obj_file_offset = 4294967295, obj_can_free = True\<rparr>],
    Objects =
      [(''636f6d6d69742031330074726565203462383235'', 0),
       (''626c6f6220310041000000000000000000000000'', 1)],
    repair = False, low_memory = False, back_store = [], Local_Hash = [],
    Local_Path = [], Remote_Path = [], ignore = [], files = []\<rparr>"
  by code_simp

lemma example_bad_delta_decoded:
  "decode_instruction [1, 4, 144, 4] 2 = Inr (Merge_buffer, 0, 4, 4)"
  by code_simp

lemma example_bad_delta_applied:
  "apply_delta [1, 4, 144, 4] 4 [65] [] = Inl Undefined"
  by code_simp

text \<open>The test on the destination of the copy, for comparison: the same instruction in a
  delta that announces a result of two bytes ends the program.\<close>

lemma destination_bound_tested:
  "apply_delta [1, 2, 144, 4] 4 [65] [] = Inl (Exit ERANGE)"
  by code_simp

lemma example_bad_resolve:
  "resolve_delta H (example_bad_pack, [], 0) 2 = Inl Undefined"
proof -
  have "resolve_delta H (example_bad_pack, [], 0) 2 =
          and_then (apply_delta [1, 4, 144, 4]
                      (obj_buffer_size (object example_bad_pack ! 2)) [65] [])
            (\<lambda>(m', l', n').
               and_then (store_object H example_bad_pack
                           (obj_type (object example_bad_pack ! 1)) m' n' 0 0 None)
                 (\<lambda>s. Inr (s, l', n')))"
    by (rule resolve_delta_one_ofs [where b = 1 and j = 2])
       (simp_all add: example_bad_pack_value RB_FIND_def copy_base_def fetch_def)
  then show ?thesis
    by (simp add: example_bad_pack_value example_bad_delta_applied and_then_def)
qed

lemma example_bad_apply_deltas: "apply_deltas H example_bad_pack = Inl Undefined"
proof -
  have len: "length (object example_bad_pack) = Suc (Suc (Suc 0))"
    by (simp add: example_bad_pack_value)
  have "resolve_delta H (example_bad_pack, [], 0) (Suc (Suc 0)) = Inl Undefined"
    using example_bad_resolve [of H] by (simp add: numeral_2_eq_2)
  then show ?thesis by (simp add: apply_deltas_def len and_then_def)
qed

subsection \<open>Every delta is resolved\<close>






section \<open>The claims about the object store\<close>

text \<open>
  Claim C5, as amended. When \<^verbatim>\<open>store_object\<close> is given an object whose hash the lookup tree
  already holds: in the normal mode the object is dropped and the store is unchanged; in
  the repair mode the object is added at the end of the array, the lookup tree is
  unchanged, and a lookup by that hash still returns the earlier object.
\<close>

theorem store_object_duplicate:
  assumes "plain_index s"
    and "calculate_object_hash H b n t = Inr h"
    and "RB_FIND (Objects s) h = Some i"
  shows "(\<not> repair s \<longrightarrow> store_object H s t b n p d r = Inr s) \<and>
         (repair s \<longrightarrow>
            store_object H s t b n p d r
              = Inr (s\<lparr>object := object s @ [new_node s h t b n p d r]\<rparr>) \<and>
            Objects (s\<lparr>object := object s @ [new_node s h t b n p d r]\<rparr>) = Objects s \<and>
            find_object (s\<lparr>object := object s @ [new_node s h t b n p d r]\<rparr>) h
              = Some (object s ! i))"
proof (intro conjI impI)
  assume "\<not> repair s"
  with assms(2,3) show "store_object H s t b n p d r = Inr s"
    by (simp add: store_object_hashed)
next
  assume r: "repair s"
  show "store_object H s t b n p d r
          = Inr (s\<lparr>object := object s @ [new_node s h t b n p d r]\<rparr>)"
    using assms(2,3) r by (rule store_object_duplicate_repair)
  show "Objects (s\<lparr>object := object s @ [new_node s h t b n p d r]\<rparr>) = Objects s"
    by simp
  show "find_object (s\<lparr>object := object s @ [new_node s h t b n p d r]\<rparr>) h
          = Some (object s ! i)"
    using assms(1,3) by (rule store_object_duplicate_lookup)
qed

theorem store_object_duplicate_witness:
  "plain_index example_pack \<and>
   calculate_object_hash example_digest [1, 2, 3, 4] 4 3
     = Inr ''626c6f6220340001020304000000000000000000'' \<and>
   RB_FIND (Objects example_pack) ''626c6f6220340001020304000000000000000000'' = Some 1 \<and>
   \<not> repair example_pack \<and>
   store_object example_digest example_pack 3 [1, 2, 3, 4] 4 99 0 None = Inr example_pack \<and>
   plain_index (example_pack\<lparr>repair := True\<rparr>) \<and>
   repair (example_pack\<lparr>repair := True\<rparr>) \<and>
   store_object example_digest (example_pack\<lparr>repair := True\<rparr>) 3 [1, 2, 3, 4] 4 99 0 None
     = Inr (example_pack
              \<lparr>repair := True,
               object := object example_pack @
                 [new_node example_pack ''626c6f6220340001020304000000000000000000''
                    3 [1, 2, 3, 4] 4 99 0 None]\<rparr>) \<and>
   length (object example_pack @
             [new_node example_pack ''626c6f6220340001020304000000000000000000''
                3 [1, 2, 3, 4] 4 99 0 None]) = 4 \<and>
   find_object
       (example_pack
          \<lparr>repair := True,
           object := object example_pack @
             [new_node example_pack ''626c6f6220340001020304000000000000000000''
                3 [1, 2, 3, 4] 4 99 0 None]\<rparr>)
       ''626c6f6220340001020304000000000000000000''
     = Some (object example_pack ! 1)"
proof -
  have f: "RB_FIND (Objects example_pack) ''626c6f6220340001020304000000000000000000'' = Some 1"
    by (simp add: example_pack_value RB_FIND_def)
  then have f': "RB_FIND (Objects (example_pack\<lparr>repair := True\<rparr>))
                   ''626c6f6220340001020304000000000000000000'' = Some 1"
    by simp
  have n: "\<not> repair example_pack" by (simp add: example_pack_value)
  have l: "length (object example_pack) = 3" by (simp add: example_pack_value)
  have p': "plain_index (example_pack\<lparr>repair := True\<rparr>)"
    by (simp add: plain_index_repair plain_index_example)
  have nn: "new_node (example_pack\<lparr>repair := True\<rparr>) = new_node example_pack"
    by (intro ext) (simp add: new_node_def)
  show ?thesis
    using store_object_duplicate [OF plain_index_example example_blob_hash f, of 99 0 None]
      store_object_duplicate [OF p' example_blob_hash f', of 99 0 None]
      plain_index_example example_blob_hash f n l p'
    by (simp add: nn)
qed

text \<open>
  Claim C5 as stated fails in the repair mode: after a second blob with the bytes of the
  blob at pack offset 40 is stored with pack offset 99, the lookup by its hash returns the
  node with pack offset 40, and the node with pack offset 99 is the last of the array.
\<close>

theorem store_object_repair_counterexample:
  "store_object example_digest (example_pack\<lparr>repair := True\<rparr>) 3 [1, 2, 3, 4] 4 99 0 None
     = Inr (example_pack
              \<lparr>repair := True,
               object := object example_pack @
                 [new_node example_pack ''626c6f6220340001020304000000000000000000''
                    3 [1, 2, 3, 4] 4 99 0 None]\<rparr>) \<and>
   calculate_object_hash example_digest [1, 2, 3, 4] 4 3
     = Inr ''626c6f6220340001020304000000000000000000'' \<and>
   map_option obj_pack_offset
     (find_object
        (example_pack
           \<lparr>repair := True,
            object := object example_pack @
              [new_node example_pack ''626c6f6220340001020304000000000000000000''
                 3 [1, 2, 3, 4] 4 99 0 None]\<rparr>)
        ''626c6f6220340001020304000000000000000000'') = Some 40 \<and>
   obj_pack_offset
     (last (object example_pack @
              [new_node example_pack ''626c6f6220340001020304000000000000000000''
                 3 [1, 2, 3, 4] 4 99 0 None])) = 99"
proof -
  let ?s = "example_pack\<lparr>repair := True\<rparr>"
  have p: "plain_index ?s" by (simp add: plain_index_repair plain_index_example)
  have f: "RB_FIND (Objects ?s) ''626c6f6220340001020304000000000000000000'' = Some 1"
    by (simp add: example_pack_value RB_FIND_def)
  have r: "repair ?s" by simp
  have nn: "new_node ?s = new_node example_pack"
    by (intro ext) (simp add: new_node_def)
  have "obj_pack_offset (object ?s ! 1) = 40" by (simp add: example_pack_value)
  then show ?thesis
    using store_object_duplicate_lookup [OF p f, of "new_node example_pack
        ''626c6f6220340001020304000000000000000000'' 3 [1, 2, 3, 4] 4 99 0 None"]
      store_object_duplicate_repair [OF example_blob_hash f r, of 99 0 None]
    by (simp add: new_node_def example_blob_hash nn)
qed

text \<open>
  Claim C10. The lookup tree holds only nodes that are not deltas. The tree of the empty
  store has the property, and \<^verbatim>\<open>store_object\<close>, \<^verbatim>\<open>release_buffer\<close>, \<^verbatim>\<open>load_buffer\<close>,
  \<^verbatim>\<open>load_object\<close> and \<^verbatim>\<open>apply_deltas\<close> keep it, whatever object is stored; so a lookup by
  hash never returns a node of type 6 (ofs-delta) or 7 (ref-delta), which are in the array
  only.
\<close>

theorem index_holds_no_delta:
  "plain_index empty_state \<and>
   (plain_index s \<longrightarrow>
      (\<forall>s'. store_object H s t b n p d r = Inr s' \<longrightarrow> plain_index s') \<and>
      plain_index (release_buffer s i) \<and>
      (\<forall>s'. load_buffer s i = Inr s' \<longrightarrow> plain_index s') \<and>
      (\<forall>s'. load_object H s h path = Inr s' \<longrightarrow> plain_index s') \<and>
      (\<forall>s'. apply_deltas H s = Inr s' \<longrightarrow> plain_index s') \<and>
      (\<forall>node. find_object s h = Some node \<longrightarrow> obj_type node \<noteq> 6 \<and> obj_type node \<noteq> 7))"
proof (intro conjI impI allI)
  show "plain_index empty_state" by (rule plain_index_empty)
next
  fix s' assume "plain_index s" "store_object H s t b n p d r = Inr s'"
  then show "plain_index s'" by (rule plain_index_store_object)
next
  assume "plain_index s"
  then show "plain_index (release_buffer s i)" by (simp add: pass_release_buffer)
next
  fix s' assume "plain_index s" "load_buffer s i = Inr s'"
  then show "plain_index s'" by (simp add: pass_load_buffer)
next
  fix s' assume "plain_index s" "load_object H s h path = Inr s'"
  then show "plain_index s'" by (simp add: pass_load_object)
next
  fix s' assume "plain_index s" "apply_deltas H s = Inr s'"
  then show "plain_index s'" by (simp add: pass_apply_deltas)
next
  fix node assume "plain_index s" "find_object s h = Some node"
  then have "obj_type node < 6" by (rule find_object_plain)
  then show "obj_type node \<noteq> 6" "obj_type node \<noteq> 7" by simp_all
qed

theorem index_holds_no_delta_witness:
  "plain_index empty_state \<and> plain_index example_pack \<and>
   store_object example_digest example_pack 7 [1, 2] 2 80 0 (Some (replicate 20 0))
     = Inr (example_pack\<lparr>object := object example_pack @
         [new_node example_pack ''7265662d64656c74612032000102000000000000'' 7 [1, 2] 2 80 0
            (Some (replicate 20 0))]\<rparr>) \<and>
   plain_index (example_pack\<lparr>object := object example_pack @
         [new_node example_pack ''7265662d64656c74612032000102000000000000'' 7 [1, 2] 2 80 0
            (Some (replicate 20 0))]\<rparr>) \<and>
   plain_index (release_buffer example_pack 1) \<and>
   load_buffer example_pack 1 = Inr example_pack \<and>
   load_object example_digest example_pack ''626c6f6220340001020304000000000000000000'' None
     = Inr example_pack \<and>
   apply_deltas example_digest example_pack = Inr example_resolved \<and>
   plain_index example_resolved \<and>
   find_object example_pack ''626c6f6220340001020304000000000000000000''
     = Some (object example_pack ! 1) \<and>
   obj_type (object example_pack ! 1) \<noteq> 6 \<and> obj_type (object example_pack ! 1) \<noteq> 7"
proof -
  have lb: "load_buffer example_pack 1 = Inr example_pack"
    by (simp add: load_buffer_normal example_pack_value)
  have lo: "load_object example_digest example_pack ''626c6f6220340001020304000000000000000000'' None
              = Inr example_pack"
    by (simp add: load_object_def RB_FIND_def example_pack_value)
  have fo: "find_object example_pack ''626c6f6220340001020304000000000000000000''
              = Some (object example_pack ! 1)"
    by (simp add: find_object_def RB_FIND_def example_pack_value)
  have ad: "apply_deltas example_digest example_pack = Inr example_resolved"
    by (simp only: example_apply_deltas example_resolved_stored)
  show ?thesis
    using index_holds_no_delta
      [of example_pack example_digest 7 "[1, 2]" 2 80 0 "Some (replicate 20 0)" 1
          "''626c6f6220340001020304000000000000000000''" None]
      plain_index_example lb lo fo ad
    by (simp add: example_delta_stored)
qed

section \<open>The claims about the delta pass\<close>




text \<open>
  Claim C1 fails on the code. In the example the base has one byte and the copy
  instruction \<^verbatim>\<open>0x90 0x04\<close> of the delta decodes to offset 0 and length 4, so offset +
  length is 4 and exceeds the size 1 of the merge buffer. The program does not stop: the
  copy reads outside the merge buffer, which is \<open>Undefined\<close>, in \<^verbatim>\<open>apply_delta\<close> and so in
  the whole pass.
\<close>

theorem copy_reads_past_merge_buffer:
  "decode_instruction example_bad_delta 2 = Inr (Merge_buffer, 0, 4, 4) \<and>
   \<not> unat (0 :: u32) + unat (4 :: u32) \<le> length [65 :: byte] \<and>
   apply_delta example_bad_delta 4 [65] [] = Inl Undefined \<and>
   apply_deltas example_digest example_bad_pack = Inl Undefined"
  by (simp add: example_bad_delta_def example_bad_delta_decoded example_bad_delta_applied
        example_bad_apply_deltas)

section \<open>Decoding the instructions\<close>

text \<open>What \<open>spec_select\<close> leaves of the stream, and when it fails.\<close>

lemma spec_select_None:
  "spec_select k sels stream = None \<longleftrightarrow> length stream < length (filter id sels)"
proof (induction sels arbitrary: k stream)
  case Nil
  show ?case by simp
next
  case (Cons s sels)
  show ?case
  proof (cases s)
    case False
    with Cons.IH [of "k + 1" stream] show ?thesis by simp
  next
    case True
    show ?thesis
    proof (cases stream)
      case Nil
      with True show ?thesis by simp
    next
      case (Cons b rest)
      with True Cons.IH [of "k + 1" rest] show ?thesis by simp
    qed
  qed
qed

lemma spec_select_Some:
  "spec_select k sels stream = Some (v, rest) \<Longrightarrow>
     rest = drop (length (filter id sels)) stream \<and> length (filter id sels) \<le> length stream"
proof (induction sels arbitrary: k stream v)
  case Nil
  then show ?case by simp
next
  case (Cons s sels)
  show ?case
  proof (cases s)
    case False
    with Cons.prems have "spec_select (k + 1) sels stream = Some (v, rest)" by simp
    from Cons.IH [OF this] False show ?thesis by simp
  next
    case True
    show ?thesis
    proof (cases stream)
      case Nil
      with True Cons.prems show ?thesis by simp
    next
      case (Cons b r)
      with True Cons.prems obtain v' where "spec_select (k + 1) sels r = Some (v', rest)"
        by auto
      from Cons.IH [OF this] True Cons show ?thesis by simp
    qed
  qed
qed

lemma spec_select_snoc:
  "spec_select k (sels @ [s]) stream =
     (case spec_select k sels stream of
        None \<Rightarrow> None
      | Some (v, rest) \<Rightarrow>
          if s then (case rest of
                       [] \<Rightarrow> None
                     | b # r \<Rightarrow> Some (v + push_bit (8 * (k + length sels)) (ucast b), r))
          else Some (v, rest))"
proof (induction sels arbitrary: k stream)
  case Nil
  show ?case by (cases stream) simp_all
next
  case (Cons x sels)
  have idx: "k + 1 + length sels = k + length (x # sels)" by simp
  show ?case
  proof (cases x)
    case False
    then have "spec_select k ((x # sels) @ [s]) stream = spec_select (k + 1) (sels @ [s]) stream"
      and "spec_select k (x # sels) stream = spec_select (k + 1) sels stream"
      by simp_all
    then show ?thesis
      unfolding Cons.IH [of "k + 1" stream] idx by simp
  next
    case True
    show ?thesis
    proof (cases stream)
      case Nil
      with True show ?thesis by simp
    next
      case (Cons b rest)
      show ?thesis
      proof (cases "spec_select (k + 1) sels rest")
        case None
        with True Cons Cons.IH [of "k + 1" rest] show ?thesis by simp
      next
        case (Some p)
        obtain v r where p: "p = (v, r)" by (cases p)
        show ?thesis
        proof (cases "s \<and> r \<noteq> []")
          case False
          with True Cons Some p Cons.IH [of "k + 1" rest] show ?thesis
            by (cases r) auto
        next
          case t: True
          then obtain c r' where r: "r = c # r'" by (cases r) auto
          have "spec_select k ((x # sels) @ [s]) stream =
                  Some (push_bit (8 * k) (ucast b) +
                          (v + push_bit (8 * (k + 1 + length sels)) (ucast c)), r')"
            using True Cons Some p r t Cons.IH [of "k + 1" rest] by simp
          moreover have "spec_select k (x # sels) stream = Some (push_bit (8 * k) (ucast b) + v, r)"
            using True Cons Some p by simp
          ultimately show ?thesis
            using t r unfolding idx by (simp only: option.case prod.case list.case if_True) simp
        qed
      qed
    qed
  qed
qed

lemma and_push_bit_1_nat: "(bits :: nat) AND push_bit m 1 \<noteq> 0 \<longleftrightarrow> bit bits m"
  by (simp add: bit_iff_and_push_bit_not_eq_0)

lemma byte_at_drop:
  "byte_at data i = (case drop i data of [] \<Rightarrow> Inl Undefined | b # r \<Rightarrow> Inr b)"
proof (cases "i < length data")
  case True
  then have "drop i data = data ! i # drop (Suc i) data" by (simp add: Cons_nth_drop_Suc)
  with True show ?thesis by (simp add: byte_at_def)
next
  case False
  then show ?thesis by (simp add: byte_at_def)
qed

lemma place_bytes_0:
  "place_bytes data position bits 0 temp result =
     (if bit bits 0
      then and_then (byte_at data (position + (temp - 1))) (\<lambda>b. Inr (result + push_bit (0 * 8) (ucast b)))
      else Inr result)"
  by (simp only: place_bytes.simps and_push_bit_1_nat)

lemma place_bytes_Suc:
  "place_bytes data position bits (Suc msk) temp result =
     (if bit bits (Suc msk)
      then and_then (byte_at data (position + (temp - 1)))
             (\<lambda>b. place_bytes data position bits msk (temp - 1)
                      (result + push_bit (Suc msk * 8) (ucast b)))
      else place_bytes data position bits msk temp result)"
  by (simp only: place_bytes.simps and_push_bit_1_nat)

lemma place_bytes_spec:
  assumes "temp = length (filter id (map (bit bits) [0..<Suc msk]))"
  shows "place_bytes data position bits msk temp result =
     (case spec_select 0 (map (bit bits) [0..<Suc msk]) (drop position data) of
        None \<Rightarrow> Inl Undefined
      | Some (v, rest) \<Rightarrow> Inr (result + v))"
  using assms
proof (induction msk arbitrary: temp result)
  case 0
  show ?case
  proof (cases "bit bits 0")
    case False
    then show ?thesis unfolding place_bytes_0 by simp
  next
    case True
    with 0 have temp: "temp = 1" by simp
    show ?thesis
      unfolding place_bytes_0 using True
      by (cases "drop position data") (simp_all add: temp byte_at_drop and_then_def)
  qed
next
  case (Suc msk)
  define sels where "sels = map (bit bits) [0..<Suc msk]"
  define n where "n = length (filter id sels)"
  define stream where "stream = drop position data"
  have sels': "map (bit bits) [0..<Suc (Suc msk)] = sels @ [bit bits (Suc msk)]"
    by (simp add: sels_def)
  have len: "length sels = Suc msk" by (simp add: sels_def)
  have n: "n = length (filter id (map (bit bits) [0..<Suc msk]))"
    by (simp only: n_def sels_def)
  have ih: "place_bytes data position bits msk n r =
              (case spec_select 0 sels stream of
                 None \<Rightarrow> Inl Undefined | Some (v, rest) \<Rightarrow> Inr (r + v))" for r
    unfolding sels_def stream_def by (rule Suc.IH [OF n])
  have temp: "temp = n + (if bit bits (Suc msk) then 1 else 0)"
    using Suc.prems unfolding sels' by (simp only: filter_append length_append n_def) simp
  show ?case
    unfolding sels' stream_def [symmetric]
  proof (cases "bit bits (Suc msk)")
    case False
    with temp have temp: "temp = n" by simp
    have "place_bytes data position bits (Suc msk) temp result
            = place_bytes data position bits msk n result"
      unfolding place_bytes_Suc using False by (simp add: temp)
    then show "place_bytes data position bits (Suc msk) temp result =
        (case spec_select 0 (sels @ [bit bits (Suc msk)]) stream of
           None \<Rightarrow> Inl Undefined | Some (v, rest) \<Rightarrow> Inr (result + v))"
      unfolding spec_select_snoc ih using False by (simp split: option.splits)
  next
    case True
    with temp have temp: "temp - 1 = n" by simp
    have code: "place_bytes data position bits (Suc msk) temp result =
        and_then (byte_at data (position + n))
          (\<lambda>b. place_bytes data position bits msk n (result + push_bit (Suc msk * 8) (ucast b)))"
      unfolding place_bytes_Suc using True temp by simp
    show "place_bytes data position bits (Suc msk) temp result =
        (case spec_select 0 (sels @ [bit bits (Suc msk)]) stream of
           None \<Rightarrow> Inl Undefined | Some (v, rest) \<Rightarrow> Inr (result + v))"
    proof (cases "position + n < length data")
      case inb: True
      then have "\<not> length stream < n" by (simp add: stream_def)
      then obtain v rest where sel: "spec_select 0 sels stream = Some (v, rest)"
        using spec_select_None [of 0 sels stream] unfolding n_def
        by (cases "spec_select 0 sels stream") auto
      from spec_select_Some [OF sel] have "rest = drop (position + n) data"
        by (simp add: add.commute n_def stream_def)
      with inb have rest: "rest = data ! (position + n) # drop (Suc (position + n)) data"
        by (simp add: Cons_nth_drop_Suc)
      have "place_bytes data position bits (Suc msk) temp result =
              Inr (result + push_bit (Suc msk * 8) (ucast (data ! (position + n))) + v)"
        unfolding code ih sel using inb by (simp add: byte_at_def and_then_def)
      moreover have "spec_select 0 (sels @ [bit bits (Suc msk)]) stream =
              Some (v + push_bit (8 * Suc msk) (ucast (data ! (position + n))),
                    drop (Suc (position + n)) data)"
        unfolding spec_select_snoc sel using True rest len by simp
      ultimately show ?thesis by (simp add: ac_simps)
    next
      case oob: False
      then have c: "place_bytes data position bits (Suc msk) temp result = Inl Undefined"
        unfolding code by (simp add: byte_at_def and_then_def)
      have "spec_select 0 (sels @ [bit bits (Suc msk)]) stream = None"
      proof (cases "spec_select 0 sels stream")
        case None
        then show ?thesis unfolding spec_select_snoc by simp
      next
        case (Some p)
        obtain v rest where p: "p = (v, rest)" by (cases p)
        from spec_select_Some [OF Some [unfolded p]] oob have "rest = []"
          by (simp add: n_def stream_def)
        with Some p True show ?thesis unfolding spec_select_snoc by simp
      qed
      with c show ?thesis by simp
    qed
  qed
qed

lemma and_mask_bits_nat:
  "(bits :: nat) AND 8 \<noteq> 0 \<longleftrightarrow> bit bits 3"
  "(bits :: nat) AND 4 \<noteq> 0 \<longleftrightarrow> bit bits 2"
  "(bits :: nat) AND 2 \<noteq> 0 \<longleftrightarrow> bit bits 1"
  "(bits :: nat) AND 1 \<noteq> 0 \<longleftrightarrow> bit bits 0"
  using and_push_bit_1_nat [of bits 3] and_push_bit_1_nat [of bits 2]
    and_push_bit_1_nat [of bits 1] and_push_bit_1_nat [of bits 0]
  by simp_all

lemma count_read_bytes_bits:
  "count_read_bytes bits 8 0 = length (filter id [bit bits 0, bit bits 1, bit bits 2, bit bits 3])"
proof -
  have d: "drop_bit 1 (8 :: nat) = 4" "drop_bit 1 (4 :: nat) = 2" "drop_bit 1 (2 :: nat) = 1"
    "drop_bit 1 (1 :: nat) = 0"
    by (simp_all add: drop_bit_eq_div)
  have 1: "count_read_bytes bits 1 r = (if bit bits 0 then r + 1 else r)" for r
    by (subst count_read_bytes.simps) (simp only: d and_mask_bits_nat Let_def, simp)
  have 2: "count_read_bytes bits 2 r = count_read_bytes bits 1 (if bit bits 1 then r + 1 else r)" for r
    by (subst count_read_bytes.simps) (simp only: d and_mask_bits_nat Let_def, simp)
  have 4: "count_read_bytes bits 4 r = count_read_bytes bits 2 (if bit bits 2 then r + 1 else r)" for r
    by (subst count_read_bytes.simps) (simp only: d and_mask_bits_nat Let_def, simp)
  have 8: "count_read_bytes bits 8 r = count_read_bytes bits 4 (if bit bits 3 then r + 1 else r)" for r
    by (subst count_read_bytes.simps) (simp only: d and_mask_bits_nat Let_def, simp)
  show ?thesis unfolding 8 4 2 1 by simp
qed

lemma upt_4: "[0..<Suc 3] = [0, 1, 2, 3]"
  by (simp add: upt_rec)

lemma unpack_delta_integer_spec:
  assumes "position \<le> length data"
  shows "unpack_delta_integer data position bits =
    (case spec_select 0 [bit bits 0, bit bits 1, bit bits 2, bit bits 3] (drop position data) of
       None \<Rightarrow> Inl Undefined
     | Some (v, rest) \<Rightarrow> Inr (v, length data - length rest))"
proof -
  define sels where "sels = [bit bits 0, bit bits 1, bit bits 2, bit bits 3]"
  define n where "n = length (filter id sels)"
  have m: "map (bit bits) [0..<Suc 3] = sels" by (simp only: upt_4 sels_def list.map)
  have rb: "count_read_bytes bits 8 0 = n" by (simp only: count_read_bytes_bits n_def sels_def)
  have pb: "place_bytes data position bits 3 n 0 =
              (case spec_select 0 sels (drop position data) of
                 None \<Rightarrow> Inl Undefined | Some (v, rest) \<Rightarrow> Inr (0 + v))"
    using place_bytes_spec [of n bits 3 data position 0] unfolding m n_def by simp
  show ?thesis
    unfolding sels_def [symmetric]
  proof (cases "spec_select 0 sels (drop position data)")
    case None
    then have "length (drop position data) < n"
      using spec_select_None [of 0 sels "drop position data"] by (simp only: n_def)
    then have "0 < n" by arith
    with None pb show "unpack_delta_integer data position bits =
        (case spec_select 0 sels (drop position data) of
           None \<Rightarrow> Inl Undefined | Some (v, rest) \<Rightarrow> Inr (v, length data - length rest))"
      by (simp add: unpack_delta_integer_def rb and_then_def)
  next
    case (Some p)
    obtain v rest where p: "p = (v, rest)" by (cases p)
    from spec_select_Some [OF Some [unfolded p]]
    have rest: "rest = drop n (drop position data)" and le: "n \<le> length data - position"
      by (simp_all add: n_def)
    with assms have pos: "length data - length rest = position + n" by simp
    show "unpack_delta_integer data position bits =
        (case spec_select 0 sels (drop position data) of
           None \<Rightarrow> Inl Undefined | Some (v, rest) \<Rightarrow> Inr (v, length data - length rest))"
    proof (cases "0 < n")
      case True
      with Some p pb pos show ?thesis
        by (simp add: unpack_delta_integer_def rb and_then_def)
    next
      case False
      then have "filter id sels = []" by (simp add: n_def)
      then have "\<forall>x\<in>set sels. \<not> id x" by (simp only: filter_empty_conv)
      then have "\<not> bit bits 0" "\<not> bit bits 1" "\<not> bit bits 2" "\<not> bit bits 3"
        by (simp_all add: sels_def)
      then have "sels = [False, False, False, False]"
        by (simp add: sels_def)
      with Some p have "v = 0" by simp
      with False Some p pos show ?thesis
        by (simp add: unpack_delta_integer_def rb)
    qed
  qed
qed

lemma top_bit: "((i :: byte) AND 0x80 \<noteq> 0) = bit i 7"
  using bit_iff_and_push_bit_not_eq_0 [of i 7] by simp

lemma offset_bits:
  "[bit (unat ((i :: byte) AND 0x0F)) 0, bit (unat (i AND 0x0F)) 1,
    bit (unat (i AND 0x0F)) 2, bit (unat (i AND 0x0F)) 3] = [bit i 0, bit i 1, bit i 2, bit i 3]"
  by (simp add: bit_simps)

lemma length_bits:
  "[bit (unat (drop_bit 4 ((i :: byte) AND 0x70))) 0, bit (unat (drop_bit 4 (i AND 0x70))) 1,
    bit (unat (drop_bit 4 (i AND 0x70))) 2, bit (unat (drop_bit 4 (i AND 0x70))) 3]
     = [bit i 4, bit i 5, bit i 6, False]"
  by (simp add: bit_simps)

lemma low_bits: "\<not> bit (i :: byte) 7 \<Longrightarrow> i AND 0x7F = i"
proof (rule bit_eqI)
  fix n
  assume top: "\<not> bit i 7"
  have m: "(0x7F :: byte) = mask 7" by (simp add: mask_eq_exp_minus_1)
  show "bit (i AND 0x7F) n = bit i n"
  proof (cases "n = 7")
    case True
    with top show ?thesis by (simp add: bit_and_iff)
  next
    case False
    then have "n < 7 \<or> 8 \<le> n" by arith
    then show ?thesis
      unfolding m by (auto simp: bit_and_iff bit_mask_iff dest: bit_imp_le_length)
  qed
qed

lemma spec_select_trailing_False:
  "spec_select k [a, b, c, False] stream = spec_select k [a, b, c] stream"
  using spec_select_snoc [of k "[a, b, c]" False stream]
  by (simp split: option.splits)

lemma spec_select_position:
  assumes "spec_select k sels (drop p data) = Some (v, rest)" and "p \<le> length data"
  shows "drop (length data - length rest) data = rest" and "length data - length rest \<le> length data"
proof -
  let ?c = "length (filter id sels)"
  from spec_select_Some [OF assms(1)]
  have rest: "rest = drop (?c + p) data" and le: "?c \<le> length data - p" by simp_all
  from le assms(2) have "length data - length rest = ?c + p" unfolding rest by simp
  with rest show "drop (length data - length rest) data = rest" by simp
  show "length data - length rest \<le> length data" by simp
qed

lemma decode_copy_unfold:
  assumes "position < length data" and "bit (data ! position) 7"
  shows "decode_instruction data position =
      and_then (unpack_delta_integer data (position + 1) (unat (data ! position AND 0x0F)))
        (\<lambda>(offset, position').
           and_then (unpack_delta_integer data position' (unat (drop_bit 4 (data ! position AND 0x70))))
             (\<lambda>(len, position''). Inr (Merge_buffer, offset, if len = 0 then 65536 else len, position'')))"
proof -
  have "byte_at data position = Inr (data ! position)" using assms(1) by (simp add: byte_at_def)
  moreover have "data ! position AND 0x80 \<noteq> 0" using assms(2) by (simp only: top_bit)
  ultimately show ?thesis
    unfolding decode_instruction_def and_then_def Let_def by simp
qed

lemma decode_copy:
  assumes "position < length data" and "bit (data ! position) 7"
  shows "decode_instruction data position =
     (case spec_copy (data ! position) (drop (position + 1) data) of
        None \<Rightarrow> Inl Undefined
      | Some (offset, len, rest) \<Rightarrow> Inr (Merge_buffer, offset, len, length data - length rest))"
proof -
  define i where "i = data ! position"
  define stream where "stream = drop (position + 1) data"
  have le: "position + 1 \<le> length data" using assms(1) by simp
  have u1: "unpack_delta_integer data (position + 1) (unat (i AND 0x0F)) =
      (case spec_select 0 [bit i 0, bit i 1, bit i 2, bit i 3] stream of
         None \<Rightarrow> Inl Undefined | Some (v, rest) \<Rightarrow> Inr (v, length data - length rest))"
    by (simp only: unpack_delta_integer_spec [OF le] offset_bits stream_def)
  note d = decode_copy_unfold [OF assms, folded i_def]
  show ?thesis
    unfolding i_def [symmetric] stream_def [symmetric]
  proof (cases "spec_select 0 [bit i 0, bit i 1, bit i 2, bit i 3] stream")
    case None
    have "spec_copy i stream = None" by (simp only: spec_copy_def None option.case)
    moreover have "decode_instruction data position = Inl Undefined"
      by (simp only: d u1 None option.case and_then_def sum.case)
    ultimately show "decode_instruction data position =
       (case spec_copy i stream of
          None \<Rightarrow> Inl Undefined
        | Some (offset, len, rest) \<Rightarrow> Inr (Merge_buffer, offset, len, length data - length rest))"
      by (simp only: option.case)
  next
    case (Some p)
    obtain offset rest where p: "p = (offset, rest)" by (cases p)
    let ?p' = "length data - length rest"
    from spec_select_position [OF Some [unfolded p stream_def] le]
    have dr: "drop ?p' data = rest" and le': "?p' \<le> length data" by simp_all
    have u2: "unpack_delta_integer data ?p' (unat (drop_bit 4 (i AND 0x70))) =
      (case spec_select 0 [bit i 4, bit i 5, bit i 6] rest of
         None \<Rightarrow> Inl Undefined | Some (v, rest') \<Rightarrow> Inr (v, length data - length rest'))"
      by (simp only: unpack_delta_integer_spec [OF le'] length_bits dr spec_select_trailing_False)
    have dd: "decode_instruction data position =
       and_then (unpack_delta_integer data ?p' (unat (drop_bit 4 (i AND 0x70))))
         (\<lambda>(len, position''). Inr (Merge_buffer, offset, if len = 0 then 65536 else len, position''))"
      by (simp only: d u1 Some p option.case prod.case and_then_def sum.case)
    show "decode_instruction data position =
       (case spec_copy i stream of
          None \<Rightarrow> Inl Undefined
        | Some (offset, len, rest) \<Rightarrow> Inr (Merge_buffer, offset, len, length data - length rest))"
    proof (cases "spec_select 0 [bit i 4, bit i 5, bit i 6] rest")
      case None
      have "spec_copy i stream = None"
        by (simp only: spec_copy_def Some p None option.case prod.case)
      moreover have "decode_instruction data position = Inl Undefined"
        by (simp only: dd u2 None option.case and_then_def sum.case)
      ultimately show ?thesis by (simp only: option.case)
    next
      case s2: (Some q)
      obtain len rest' where q: "q = (len, rest')" by (cases q)
      have "spec_copy i stream = Some (offset, if len = 0 then 65536 else len, rest')"
        by (simp only: spec_copy_def Some p s2 q option.case prod.case)
      moreover have "decode_instruction data position =
          Inr (Merge_buffer, offset, if len = 0 then 65536 else len, length data - length rest')"
        by (simp only: dd u2 s2 q option.case prod.case and_then_def sum.case)
      ultimately show ?thesis by (simp only: option.case prod.case)
    qed
  qed
qed

lemma decode_insert:
  assumes "position < length data" and "\<not> bit (data ! position) 7"
  shows "decode_instruction data position =
           Inr (Delta_buffer, word_of_nat (position + 1), ucast (data ! position),
                position + 1 + unat (data ! position))"
proof -
  have "byte_at data position = Inr (data ! position)" using assms(1) by (simp add: byte_at_def)
  moreover have "data ! position AND 0x80 = 0"
    using assms(2) top_bit [of "data ! position"] by blast
  ultimately show ?thesis
    unfolding decode_instruction_def and_then_def by simp
qed

lemma insert_count:
  assumes "\<not> bit (i :: byte) 7"
  shows "unat (ucast i :: u32) = unat (i AND 0x7F)" and "(ucast i :: u32) = ucast (i AND 0x7F)"
proof -
  have low: "unat (i AND 0x7F) = unat i" using low_bits [OF assms] by simp
  then have "i AND 0x7F = i" by (simp only: word_unat_eq_iff)
  then show "(ucast i :: u32) = ucast (i AND 0x7F)" by simp
  then show "unat (ucast i :: u32) = unat (i AND 0x7F)"
    by (simp add: unsigned_ucast_eq take_bit_nat_eq_self unsigned_less [where 'a = nat, THEN less_trans])
qed

lemma instruction_loop_step:
  assumes "position < unat buffer_size"
    and "decode_instruction buffer position = Inr (src, offset, len, position')"
    and "source = (case src of Merge_buffer \<Rightarrow> merge_buffer | Delta_buffer \<Rightarrow> buffer)"
  shows "instruction_loop buffer buffer_size merge_buffer new_file_size position layer_buffer
           new_position =
     (if new_file_size < new_position + len then Inl (Exit ERANGE)
      else if length source < unat offset + unat len \<or>
              length layer_buffer < unat new_position + unat len
      then Inl Undefined
      else instruction_loop buffer buffer_size merge_buffer new_file_size position'
             (take (unat new_position) layer_buffer @
              take (unat len) (drop (unat offset) source) @
              drop (unat new_position + unat len) layer_buffer)
             (new_position + len))"
proof (cases "new_file_size < new_position + len")
  case True
  with assms(1,2) show ?thesis
    by (subst instruction_loop.simps) simp
next
  case range: False
  show ?thesis
  proof (cases "unat offset + unat len \<le> length source")
    case False
    then have "fetch source (unat offset) (unat len) = Inl Undefined" by (simp add: fetch_def)
    with assms(1,2) range False show ?thesis
      unfolding assms(3) by (subst instruction_loop.simps) simp
  next
    case True
    then have f: "fetch source (unat offset) (unat len)
                    = Inr (take (unat len) (drop (unat offset) source))"
      by (simp add: fetch_def)
    from True have l: "length (take (unat len) (drop (unat offset) source)) = unat len" by simp
    show ?thesis
    proof (cases "unat new_position + unat len \<le> length layer_buffer")
      case False
      then have "store_at layer_buffer (unat new_position)
                   (take (unat len) (drop (unat offset) source)) = Inl Undefined"
        unfolding store_at_def l by simp
      with assms(1,2) range True False f show ?thesis
        unfolding assms(3) by (subst instruction_loop.simps) simp
    next
      case room: True
      then have "store_at layer_buffer (unat new_position)
                   (take (unat len) (drop (unat offset) source))
                 = Inr (take (unat new_position) layer_buffer @
                        take (unat len) (drop (unat offset) source) @
                        drop (unat new_position + unat len) layer_buffer)"
        unfolding store_at_def l by simp
      with assms(1,2) range True room f show ?thesis
        unfolding assms(3) by (subst instruction_loop.simps) simp
    qed
  qed
qed

lemma instruction_loop_copy:
  assumes "position < unat buffer_size" and "position < length buffer"
    and "bit (buffer ! position) 7"
  shows "instruction_loop buffer buffer_size merge_buffer new_file_size position layer_buffer
           new_position =
     (case spec_copy (buffer ! position) (drop (position + 1) buffer) of
        None \<Rightarrow> Inl Undefined
      | Some (offset, len, rest) \<Rightarrow>
          if new_file_size < new_position + len then Inl (Exit ERANGE)
          else if length merge_buffer < unat offset + unat len \<or>
                  length layer_buffer < unat new_position + unat len
          then Inl Undefined
          else instruction_loop buffer buffer_size merge_buffer new_file_size
                 (length buffer - length rest)
                 (take (unat new_position) layer_buffer @
                  take (unat len) (drop (unat offset) merge_buffer) @
                  drop (unat new_position + unat len) layer_buffer)
                 (new_position + len))"
proof (cases "spec_copy (buffer ! position) (drop (position + 1) buffer)")
  case None
  with decode_copy [OF assms(2,3)] have "decode_instruction buffer position = Inl Undefined"
    by simp
  with assms(1) None show ?thesis
    by (subst instruction_loop.simps) simp
next
  case (Some r)
  obtain offset len rest where r: "r = (offset, len, rest)" by (cases r)
  with decode_copy [OF assms(2,3)] Some
  have d: "decode_instruction buffer position
             = Inr (Merge_buffer, offset, len, length buffer - length rest)"
    by simp
  have m: "merge_buffer = (case Merge_buffer of Merge_buffer \<Rightarrow> merge_buffer | Delta_buffer \<Rightarrow> buffer)"
    by simp
  show ?thesis
    unfolding Some r option.case prod.case
    by (rule instruction_loop_step [OF assms(1) d m])
qed

lemma instruction_loop_insert:
  assumes "position < unat buffer_size" and "position < length buffer"
    and "\<not> bit (buffer ! position) 7" and "length buffer < 2 ^ 32"
  shows "instruction_loop buffer buffer_size merge_buffer new_file_size position layer_buffer
           new_position =
     (if new_file_size < new_position + ucast (buffer ! position AND 0x7F) then Inl (Exit ERANGE)
      else
        (case spec_insert (buffer ! position) (drop (position + 1) buffer) of
           None \<Rightarrow> Inl Undefined
         | Some (bytes, rest) \<Rightarrow>
             if length layer_buffer < unat new_position + length bytes then Inl Undefined
             else instruction_loop buffer buffer_size merge_buffer new_file_size
                    (length buffer - length rest)
                    (take (unat new_position) layer_buffer @ bytes @
                     drop (unat new_position + length bytes) layer_buffer)
                    (new_position + word_of_nat (length bytes))))"
proof -
  define i where "i = buffer ! position"
  define n where "n = unat (i AND 0x7F)"
  define len :: u32 where "len = ucast (i AND 0x7F)"
  define stream where "stream = drop (position + 1) buffer"
  have ii: "i AND 0x7F = i" using low_bits [OF assms(3)] by (simp add: i_def)
  have d: "decode_instruction buffer position
             = Inr (Delta_buffer, word_of_nat (position + 1), len, position + 1 + n)"
    using decode_insert [OF assms(2,3), folded i_def] by (simp only: len_def n_def ii)
  have "position + 1 < 2 ^ LENGTH(32)" using assms(2,4) by simp
  then have o: "unat (word_of_nat (position + 1) :: u32) = position + 1"
    by (simp only: unat_of_nat take_bit_nat_eq_self mod_less)
  have ul: "unat len = n"
    using insert_count(1) [OF assms(3), folded i_def] by (simp only: len_def n_def ii)
  have wn: "word_of_nat n = len" by (simp add: n_def len_def)
  have b: "buffer = (case Delta_buffer of Merge_buffer \<Rightarrow> merge_buffer | Delta_buffer \<Rightarrow> buffer)"
    by simp
  note loop = instruction_loop_step [OF assms(1) d b, unfolded o ul, folded stream_def]
  show ?thesis
  proof (cases "n \<le> length stream")
    case True
    then have s: "spec_insert i stream = Some (take n stream, drop n stream)"
      by (simp add: spec_insert_def n_def Let_def)
    from True have "length buffer - length (drop n stream) = position + 1 + n"
      using assms(2) by (simp add: stream_def)
    moreover from True have "length (take n stream) = n" by simp
    moreover from True assms(2) have "\<not> length buffer < position + 1 + n"
      by (simp add: stream_def)
    ultimately show ?thesis
      unfolding loop i_def [symmetric] stream_def [symmetric] len_def [symmetric] s
      by (simp add: wn)
  next
    case False
    then have s: "spec_insert i stream = None"
      by (simp add: spec_insert_def n_def Let_def)
    from False assms(2) have "length buffer < position + 1 + n" by (simp add: stream_def)
    then show ?thesis
      unfolding loop i_def [symmetric] stream_def [symmetric] len_def [symmetric] s by simp
  qed
qed

subsection \<open>The claim about the instructions\<close>

text \<open>
  Claim C3. An instruction byte with the top bit set is a copy: the code decodes its
  offset and its length as the specification says, from the bytes that bits 0 to 3 and bits
  4 to 6 select, in stream order with byte 0 least significant, a length of 0 being 65536,
  and the pass of the loop writes that many bytes of the merge buffer, from that offset,
  into the layer buffer at the output position. An instruction byte with the top bit clear
  is an insert: the pass of the loop writes the following bytes of the delta, as many as the
  low 7 bits say, into the layer buffer at the output position. In both cases the loop goes
  on after the instruction with the output position moved by the length. Where the stream
  ends before the bytes of the instruction, or a buffer is too short, the code reads or
  writes outside a buffer; where the output would pass the announced size, it exits.
\<close>

theorem instructions_decoded_as_specified:
  assumes "position < length buffer" and "length buffer < 2 ^ 32"
  shows "(bit (buffer ! position) 7 \<longrightarrow>
            decode_instruction buffer position =
              (case spec_copy (buffer ! position) (drop (position + 1) buffer) of
                 None \<Rightarrow> Inl Undefined
               | Some (offset, len, rest) \<Rightarrow>
                   Inr (Merge_buffer, offset, len, length buffer - length rest)) \<and>
            (position < unat buffer_size \<longrightarrow>
               instruction_loop buffer buffer_size merge_buffer new_file_size position
                 layer_buffer new_position =
                 (case spec_copy (buffer ! position) (drop (position + 1) buffer) of
                    None \<Rightarrow> Inl Undefined
                  | Some (offset, len, rest) \<Rightarrow>
                      if new_file_size < new_position + len then Inl (Exit ERANGE)
                      else if length merge_buffer < unat offset + unat len \<or>
                              length layer_buffer < unat new_position + unat len
                      then Inl Undefined
                      else instruction_loop buffer buffer_size merge_buffer new_file_size
                             (length buffer - length rest)
                             (take (unat new_position) layer_buffer @
                              take (unat len) (drop (unat offset) merge_buffer) @
                              drop (unat new_position + unat len) layer_buffer)
                             (new_position + len)))) \<and>
         (\<not> bit (buffer ! position) 7 \<longrightarrow> position < unat buffer_size \<longrightarrow>
            instruction_loop buffer buffer_size merge_buffer new_file_size position
              layer_buffer new_position =
              (if new_file_size < new_position + ucast (buffer ! position AND 0x7F)
               then Inl (Exit ERANGE)
               else
                 (case spec_insert (buffer ! position) (drop (position + 1) buffer) of
                    None \<Rightarrow> Inl Undefined
                  | Some (bytes, rest) \<Rightarrow>
                      if length layer_buffer < unat new_position + length bytes
                      then Inl Undefined
                      else instruction_loop buffer buffer_size merge_buffer new_file_size
                             (length buffer - length rest)
                             (take (unat new_position) layer_buffer @ bytes @
                              drop (unat new_position + length bytes) layer_buffer)
                             (new_position + word_of_nat (length bytes)))))"
proof (intro conjI impI)
  assume "bit (buffer ! position) 7"
  with assms(1) show "decode_instruction buffer position =
      (case spec_copy (buffer ! position) (drop (position + 1) buffer) of
         None \<Rightarrow> Inl Undefined
       | Some (offset, len, rest) \<Rightarrow> Inr (Merge_buffer, offset, len, length buffer - length rest))"
    by (rule decode_copy)
next
  assume "bit (buffer ! position) 7" "position < unat buffer_size"
  then show "instruction_loop buffer buffer_size merge_buffer new_file_size position
      layer_buffer new_position =
      (case spec_copy (buffer ! position) (drop (position + 1) buffer) of
         None \<Rightarrow> Inl Undefined
       | Some (offset, len, rest) \<Rightarrow>
           if new_file_size < new_position + len then Inl (Exit ERANGE)
           else if length merge_buffer < unat offset + unat len \<or>
                   length layer_buffer < unat new_position + unat len
           then Inl Undefined
           else instruction_loop buffer buffer_size merge_buffer new_file_size
                  (length buffer - length rest)
                  (take (unat new_position) layer_buffer @
                   take (unat len) (drop (unat offset) merge_buffer) @
                   drop (unat new_position + unat len) layer_buffer)
                  (new_position + len))"
    using assms(1) by (intro instruction_loop_copy)
next
  assume "\<not> bit (buffer ! position) 7" "position < unat buffer_size"
  then show "instruction_loop buffer buffer_size merge_buffer new_file_size position
      layer_buffer new_position =
      (if new_file_size < new_position + ucast (buffer ! position AND 0x7F)
       then Inl (Exit ERANGE)
       else
         (case spec_insert (buffer ! position) (drop (position + 1) buffer) of
            None \<Rightarrow> Inl Undefined
          | Some (bytes, rest) \<Rightarrow>
              if length layer_buffer < unat new_position + length bytes
              then Inl Undefined
              else instruction_loop buffer buffer_size merge_buffer new_file_size
                     (length buffer - length rest)
                     (take (unat new_position) layer_buffer @ bytes @
                      drop (unat new_position + length bytes) layer_buffer)
                     (new_position + word_of_nat (length bytes))))"
    using assms by (intro instruction_loop_insert)
qed

theorem instructions_decoded_as_specified_witness:
  "2 < length example_delta \<and> 5 < length example_delta \<and> length example_delta < 2 ^ 32 \<and>
   2 < unat (11 :: u32) \<and> 5 < unat (11 :: u32) \<and>
   bit (example_delta ! 2) 7 \<and>
   spec_copy (example_delta ! 2) (drop 3 example_delta) = Some (1, 2, [3, 65, 66, 67, 0x90, 1]) \<and>
   decode_instruction example_delta 2 = Inr (Merge_buffer, 1, 2, 5) \<and>
   instruction_loop example_delta 11 [1, 2, 3, 4] 6 2 [0, 0, 0, 0, 0, 0] 0 =
     instruction_loop example_delta 11 [1, 2, 3, 4] 6 5 [2, 3, 0, 0, 0, 0] 2 \<and>
   \<not> bit (example_delta ! 5) 7 \<and>
   spec_insert (example_delta ! 5) (drop 6 example_delta) = Some ([65, 66, 67], [0x90, 1]) \<and>
   instruction_loop example_delta 11 [1, 2, 3, 4] 6 5 [2, 3, 0, 0, 0, 0] 2 =
     instruction_loop example_delta 11 [1, 2, 3, 4] 6 9 [2, 3, 65, 66, 67, 0] 5 \<and>
   instruction_loop example_delta 11 [1, 2, 3, 4] 6 2 [0, 0, 0, 0, 0, 0] 0 =
     Inr ([2, 3, 65, 66, 67, 1], 6)"
proof -
  have l: "2 < length example_delta" "5 < length example_delta" "length example_delta < 2 ^ 32"
    by (simp_all add: example_delta_def)
  have b: "bit (example_delta ! 2) 7" "\<not> bit (example_delta ! 5) 7"
    by (simp_all add: example_delta_def)
  have c: "spec_copy (example_delta ! 2) (drop 3 example_delta) = Some (1, 2, [3, 65, 66, 67, 0x90, 1])"
    unfolding example_delta_def by code_simp
  have i: "spec_insert (example_delta ! 5) (drop 6 example_delta) = Some ([65, 66, 67], [0x90, 1])"
    unfolding example_delta_def by code_simp
  have m: "example_delta ! 5 AND 0x7F = 3" unfolding example_delta_def by code_simp
  have r: "instruction_loop example_delta 11 [1, 2, 3, 4] 6 2 [0, 0, 0, 0, 0, 0] 0 =
             Inr ([2, 3, 65, 66, 67, 1], 6)"
    unfolding example_delta_def by code_simp
  have u: "2 < unat (11 :: u32)" "5 < unat (11 :: u32)" by simp_all
  have n: "Suc (Suc (Suc (Suc (Suc 0)))) = 5"
    "Suc (Suc (Suc (Suc (Suc (Suc (Suc (Suc (Suc 0)))))))) = 9" by simp_all
  have 1: "decode_instruction example_delta 2 = Inr (Merge_buffer, 1, 2, 5) \<and>
           instruction_loop example_delta 11 [1, 2, 3, 4] 6 2 [0, 0, 0, 0, 0, 0] 0 =
             instruction_loop example_delta 11 [1, 2, 3, 4] 6 5 [2, 3, 0, 0, 0, 0] 2"
    using instructions_decoded_as_specified [OF l(1,3), of 11 "[1, 2, 3, 4]" 6 "[0, 0, 0, 0, 0, 0]" 0]
      b(1) u(1) l
    by (simp add: c) (simp add: example_delta_def n)
  have 2: "instruction_loop example_delta 11 [1, 2, 3, 4] 6 5 [2, 3, 0, 0, 0, 0] 2 =
             instruction_loop example_delta 11 [1, 2, 3, 4] 6 9 [2, 3, 65, 66, 67, 0] 5"
    using instructions_decoded_as_specified [OF l(2,3), of 11 "[1, 2, 3, 4]" 6 "[2, 3, 0, 0, 0, 0]" 2]
      b(2) u(2) l
    by (simp add: i m) (simp add: example_delta_def n)
  show ?thesis using l u b c i 1 2 r by simp
qed

section \<open>Properties of the search for the base of an ofs-delta\<close>

text \<open>The search never looks at position 0 of the array, and it gives 0 when it finds nothing.\<close>

lemma find_ofs_base_none:
  assumes "0 < n" and "n \<le> int (length objs)"
    and "\<forall>j. 0 < j \<and> j < n \<longrightarrow> obj_pack_offset (objs ! nat j) \<noteq> target"
  shows "find_ofs_base objs target n = Inr 0"
  using assms
proof (induction objs target n rule: find_ofs_base.induct)
  case (1 objs target index_delta)
  show ?case
  proof (cases "index_delta - 1 > 0")
    case False
    with "1.prems"(1) have "index_delta - 1 = 0" by simp
    then show ?thesis by (subst find_ofs_base.simps) simp
  next
    case True
    with "1.prems" have lt: "nat (index_delta - 1) < length objs" by auto
    from True "1.prems"(3) have "obj_pack_offset (objs ! nat (index_delta - 1)) \<noteq> target"
      by (elim allE [of _ "index_delta - 1"]) simp
    then have ne: "target \<noteq> obj_pack_offset (objs ! nat (index_delta - 1))" by blast
    have "find_ofs_base objs target (index_delta - 1) = Inr 0"
      using True lt ne "1.prems" by (intro "1.IH") auto
    with True lt ne show ?thesis by (subst find_ofs_base.simps) simp
  qed
qed

text \<open>What it finds is the last node, from position 1 on, with the pack offset asked for.\<close>

lemma find_ofs_base_found:
  assumes "find_ofs_base objs target n = Inr k" and "0 < k"
  shows "k < n \<and> obj_pack_offset (objs ! nat k) = target \<and>
         (\<forall>j. k < j \<and> j < n \<longrightarrow> obj_pack_offset (objs ! nat j) \<noteq> target)"
  using assms
proof (induction objs target n rule: find_ofs_base.induct)
  case (1 objs target index_delta)
  from "1.prems" have pos: "index_delta - 1 > 0"
    by (subst (asm) find_ofs_base.simps) (auto simp: Let_def split: if_splits)
  with "1.prems"(1) have lt: "nat (index_delta - 1) < length objs"
    by (subst (asm) find_ofs_base.simps) (auto simp: Let_def split: if_splits)
  show ?case
  proof (cases "target = obj_pack_offset (objs ! nat (index_delta - 1))")
    case True
    with pos lt "1.prems"(1) have "k = index_delta - 1"
      by (subst (asm) find_ofs_base.simps) (simp add: Let_def)
    with True show ?thesis by auto
  next
    case False
    with pos lt "1.prems"(1) have r: "find_ofs_base objs target (index_delta - 1) = Inr k"
      by (subst (asm) find_ofs_base.simps) (simp add: Let_def)
    from "1.IH" [OF refl pos lt False r "1.prems"(2)]
    have ih: "k < index_delta - 1" "obj_pack_offset (objs ! nat k) = target"
      "\<forall>j. k < j \<and> j < index_delta - 1 \<longrightarrow> obj_pack_offset (objs ! nat j) \<noteq> target"
      by simp_all
    show ?thesis
    proof (intro conjI allI impI)
      show "k < index_delta" using ih(1) by simp
      show "obj_pack_offset (objs ! nat k) = target" by (rule ih(2))
      fix j assume j: "k < j \<and> j < index_delta"
      show "obj_pack_offset (objs ! nat j) \<noteq> target"
      proof (cases "j = index_delta - 1")
        case True
        with False show ?thesis by simp
      next
        case f: False
        with j ih(3) show ?thesis by simp
      qed
    qed
  qed
qed

text \<open>
  The search as it is meant to work: in the example pack an ofs-delta at offset 80 with
  the header byte \<^verbatim>\<open>0x28\<close>, the distance 40, gets the blob at offset 40, position 1.
\<close>

lemma ofs_delta_base_example:
  "ofs_delta_base example_pack (replicate 81 0 @ [0x28]) 80 81 = Inr (1, 82)"
  by code_simp

text \<open>
  Claim C4 fails on the code in two cases, both from the search loop
  \<^verbatim>\<open>while (--index_delta > 0)\<close>, which stops before position 0 and uses 0 for "not
  found". In the example the header byte \<^verbatim>\<open>0x12\<close> decodes to 19 and the blob at position 0
  has the pack offset 30 - 19 + 1 = 12; the base is not found and the program exits. And
  when the store is empty, so that no earlier object exists at all, the loop leaves
  \<^verbatim>\<open>index_delta\<close> at -1 and the program does not exit.
\<close>

theorem ofs_delta_base_at_position_0:
  "ofs_delta_offset example_response 31 0 = Inr (19, 32) \<and>
   obj_pack_offset (object example_first_entry ! 0) = 30 - 19 + 1 \<and>
   ofs_delta_base example_first_entry example_response 30 31 = Inl (Exit EINVAL) \<and>
   ofs_delta_base empty_state example_response 30 31 = Inr (- 1, 32)"
  by code_simp

section \<open>Properties of \<^verbatim>\<open>build_repair_command\<close>\<close>




















section \<open>The manifest path while \<^verbatim>\<open>save_objects\<close> rewrites the manifest\<close>

lemma sys_writes_length: "length (sys_writes k call d p xs) = length xs"
  by (induction xs arbitrary: d call) simp_all

lemma sys_writes_last:
  "d p = Some c \<Longrightarrow> \<forall>n. write_limit k n = None \<Longrightarrow>
     last (d # sys_writes k call d p xs) p = Some (c @ concat xs)"
  by (induction xs arbitrary: d c call) (auto simp: sys_write_def accepted_def)

lemma sys_writes_last_other:
  "q \<noteq> p \<Longrightarrow> last (d # sys_writes k call d p xs) q = d q"
  by (induction xs arbitrary: d call) (auto simp: sys_write_def split: option.splits)

lemma sys_writes_last_exists:
  "d p \<noteq> None \<Longrightarrow> last (d # sys_writes k call d p xs) p \<noteq> None"
  by (induction xs arbitrary: d call) (auto simp: sys_write_def split: option.splits)

lemma remote_data_file_new_fits:
  "length f + 5 \<le> 4096 \<Longrightarrow> remote_data_file_new f = f @ ''.new''"
  by (simp add: remote_data_file_new_def)

lemma new_name_differs: "length f + 5 \<le> 4096 \<Longrightarrow> remote_data_file_new f \<noteq> f"
  by (simp add: remote_data_file_new_fits)

lemma save_objects_calls:
  assumes "new = remote_data_file_new f"
    and "d1 = sys_open d0 new"
    and "d2 = sys_write k 0 d1 new want"
    and "d3 = sys_write k 1 d2 new [CHR 0x0A]"
    and "ds = sys_writes k 2 d3 new tree_lines"
    and "d5 = sys_remove (last (d3 # ds)) f"
    and "\<not> open_fails k" and "\<not> remove_fails k"
  shows "save_objects k f want tree_lines None d0 =
           (if rename_fails k then ([d0, d1, d2, d3] @ ds @ [d5], Some (Exit OSError))
            else (case sys_rename d5 new f of
                    None \<Rightarrow> ([d0, d1, d2, d3] @ ds @ [d5], Some (Exit OSError))
                  | Some d6 \<Rightarrow> ([d0, d1, d2, d3] @ ds @ [d5, d6], None)))"
  using assms(7,8) unfolding assms(1-6)
  by (simp add: save_objects_def Let_def split: option.splits del: last.simps)

text \<open>
  When \<^verbatim>\<open>save_objects\<close> gets to the \<^verbatim>\<open>remove\<close>, the disk after it has no file at the
  path of the manifest. With writes that store all their data the new manifest is then
  under the new name.
\<close>

lemma save_objects_after_remove:
  assumes "length f + 5 \<le> 4096" and "\<not> open_fails k" and "\<not> remove_fails k"
  shows "(fst (save_objects k f want tree_lines None d0) ! (4 + length tree_lines)) f = None"
    and "\<forall>n. write_limit k n = None \<Longrightarrow>
         (fst (save_objects k f want tree_lines None d0) ! (4 + length tree_lines)) (f @ ''.new'')
           = Some (want @ [CHR 0x0A] @ concat tree_lines)"
    and "rename_fails k \<Longrightarrow> length (fst (save_objects k f want tree_lines None d0)) = 5 + length tree_lines"
    and "rename_fails k \<Longrightarrow> snd (save_objects k f want tree_lines None d0) = Some (Exit OSError)"
    and "\<not> rename_fails k \<Longrightarrow> length (fst (save_objects k f want tree_lines None d0)) = 6 + length tree_lines"
    and "\<not> rename_fails k \<Longrightarrow> snd (save_objects k f want tree_lines None d0) = None"
proof -
  define new where "new = remote_data_file_new f"
  define d1 where "d1 = sys_open d0 new"
  define d2 where "d2 = sys_write k 0 d1 new want"
  define d3 where "d3 = sys_write k 1 d2 new [CHR 0x0A]"
  define ds where "ds = sys_writes k 2 d3 new tree_lines"
  define d5 where "d5 = sys_remove (last (d3 # ds)) f"
  define start where "start = [d0, d1, d2, d3]"
  note run = save_objects_calls [OF new_def d1_def d2_def d3_def ds_def d5_def assms(2,3),
      folded start_def]
  have n: "new \<noteq> f" unfolding new_def using assms(1) by (rule new_name_differs)
  have e: "f @ ''.new'' = new"
    unfolding new_def using assms(1) by (rule remote_data_file_new_fits [symmetric])
  have l: "length start = 4" "length ds = length tree_lines"
    by (simp_all add: start_def ds_def sys_writes_length)
  have d3: "d3 new \<noteq> None" "\<forall>n. write_limit k n = None \<Longrightarrow> d3 new = Some (want @ [CHR 0x0A])"
    by (simp_all add: d3_def d2_def d1_def sys_write_def sys_open_def accepted_def)
  have d5: "d5 f = None" "d5 new \<noteq> None"
    "\<forall>n. write_limit k n = None \<Longrightarrow> d5 new = Some (want @ [CHR 0x0A] @ concat tree_lines)"
    using n sys_writes_last_exists [of d3 new k 2 tree_lines] d3(1)
      sys_writes_last [of d3 new "want @ [CHR 0x0A]" k 2 tree_lines] d3(2)
    by (simp_all add: d5_def sys_remove_def ds_def del: last.simps)
  then have r: "sys_rename d5 new f \<noteq> None" by (auto simp: sys_rename_def)
  have at: "(start @ ds @ [d5]) ! (4 + length tree_lines) = d5"
    "\<And>d6. (start @ ds @ [d5, d6]) ! (4 + length tree_lines) = d5"
    using l by (simp_all add: nth_append)
  show "(fst (save_objects k f want tree_lines None d0) ! (4 + length tree_lines)) f = None"
    unfolding run using at d5 by (auto split: option.splits)
  show "\<forall>n. write_limit k n = None \<Longrightarrow>
        (fst (save_objects k f want tree_lines None d0) ! (4 + length tree_lines)) (f @ ''.new'')
           = Some (want @ [CHR 0x0A] @ concat tree_lines)"
    unfolding run e using at d5 by (auto split: option.splits)
  show "rename_fails k \<Longrightarrow> length (fst (save_objects k f want tree_lines None d0)) = 5 + length tree_lines"
    unfolding run using l by simp
  show "rename_fails k \<Longrightarrow> snd (save_objects k f want tree_lines None d0) = Some (Exit OSError)"
    unfolding run by simp
  show "\<not> rename_fails k \<Longrightarrow> length (fst (save_objects k f want tree_lines None d0)) = 6 + length tree_lines"
    unfolding run using l r by (auto split: option.splits)
  show "\<not> rename_fails k \<Longrightarrow> snd (save_objects k f want tree_lines None d0) = None"
    unfolding run using r by (auto split: option.splits)
qed

text \<open>
  When it gets through the \<^verbatim>\<open>rename\<close>, the manifest path holds what the writes have
  left under the new name, whatever that is.
\<close>

lemma save_objects_renamed:
  assumes "length f + 5 \<le> 4096" and "\<not> open_fails k" and "\<not> remove_fails k"
    and "\<not> rename_fails k"
  shows "last (fst (save_objects k f want tree_lines None d0)) f =
           last (sys_write k 1 (sys_write k 0 (sys_open d0 (f @ ''.new'')) (f @ ''.new'') want)
                   (f @ ''.new'') [CHR 0x0A] #
                 sys_writes k 2
                   (sys_write k 1 (sys_write k 0 (sys_open d0 (f @ ''.new'')) (f @ ''.new'') want)
                      (f @ ''.new'') [CHR 0x0A])
                   (f @ ''.new'') tree_lines) (f @ ''.new'')"
proof -
  define new where "new = remote_data_file_new f"
  define d1 where "d1 = sys_open d0 new"
  define d2 where "d2 = sys_write k 0 d1 new want"
  define d3 where "d3 = sys_write k 1 d2 new [CHR 0x0A]"
  define ds where "ds = sys_writes k 2 d3 new tree_lines"
  define d5 where "d5 = sys_remove (last (d3 # ds)) f"
  define start where "start = [d0, d1, d2, d3]"
  note run = save_objects_calls [OF new_def d1_def d2_def d3_def ds_def d5_def assms(2,3),
      folded start_def]
  have n: "new \<noteq> f" unfolding new_def using assms(1) by (rule new_name_differs)
  have e: "f @ ''.new'' = new"
    unfolding new_def using assms(1) by (rule remote_data_file_new_fits [symmetric])
  have d3: "d3 new \<noteq> None"
    by (simp add: d3_def d2_def d1_def sys_write_def sys_open_def)
  have "d5 new = last (d3 # ds) new" using n by (simp add: d5_def sys_remove_def del: last.simps)
  moreover have "last (d3 # ds) new \<noteq> None"
    unfolding ds_def using sys_writes_last_exists [of d3 new k 2 tree_lines] d3 by simp
  ultimately obtain c where c: "d5 new = Some c" "last (d3 # ds) new = Some c" by auto
  then have "sys_rename d5 new f = Some ((d5(new := None))(f \<mapsto> c))"
    using n by (simp add: sys_rename_def)
  then have "last (fst (save_objects k f want tree_lines None d0)) f = Some c"
    unfolding run using assms(4) by simp
  with c(2) show ?thesis
    unfolding e ds_def d3_def d2_def d1_def by simp
qed

lemma example_full_disk_written:
  "last (sys_write example_full_disk 1
           (sys_write example_full_disk 0
              (sys_open example_disk (''/var/db/gitup/ports'' @ ''.new''))
              (''/var/db/gitup/ports'' @ ''.new'') example_want)
           (''/var/db/gitup/ports'' @ ''.new'') [CHR 0x0A] #
         sys_writes example_full_disk 2
           (sys_write example_full_disk 1
              (sys_write example_full_disk 0
                 (sys_open example_disk (''/var/db/gitup/ports'' @ ''.new''))
                 (''/var/db/gitup/ports'' @ ''.new'') example_want)
              (''/var/db/gitup/ports'' @ ''.new'') [CHR 0x0A])
           (''/var/db/gitup/ports'' @ ''.new'') example_tree_lines)
     (''/var/db/gitup/ports'' @ ''.new'') = Some ''55555555''"
  by (simp add: sys_write_def sys_open_def accepted_def example_full_disk_def example_kernel_def
        example_want_def example_tree_lines_def)

text \<open>
  Claim C7 fails on the code in two ways. \<^verbatim>\<open>save_objects\<close> removes the manifest before it
  renames the new file: on a disk that has a manifest, with every call succeeding, the
  seventh state of the disk is the one after \<^verbatim>\<open>remove\<close>, where the manifest path has no
  file and the new manifest is under the new name only; if \<^verbatim>\<open>rename\<close> then fails, the
  program exits and that state is the last one. And \<^verbatim>\<open>save_objects\<close> does not look at
  the result of any \<^verbatim>\<open>write\<close>: on a disk that is full after 8 bytes it goes on to the
  \<^verbatim>\<open>remove\<close> and the \<^verbatim>\<open>rename\<close> and returns, and the manifest path then holds the first
  8 bytes of the new manifest.
\<close>

theorem manifest_absent_or_cut:
  "example_disk ''/var/db/gitup/ports'' = Some ''old manifest'' \<and>
   length (fst (save_objects example_kernel ''/var/db/gitup/ports'' example_want
                  example_tree_lines None example_disk)) = 8 \<and>
   (fst (save_objects example_kernel ''/var/db/gitup/ports'' example_want
           example_tree_lines None example_disk) ! 6) ''/var/db/gitup/ports'' = None \<and>
   (fst (save_objects example_kernel ''/var/db/gitup/ports'' example_want
           example_tree_lines None example_disk) ! 6) ''/var/db/gitup/ports.new''
     = Some (example_want @ [CHR 0x0A] @ concat example_tree_lines) \<and>
   snd (save_objects (example_kernel\<lparr>rename_fails := True\<rparr>) ''/var/db/gitup/ports'' example_want
          example_tree_lines None example_disk) = Some (Exit OSError) \<and>
   last (fst (save_objects (example_kernel\<lparr>rename_fails := True\<rparr>) ''/var/db/gitup/ports''
                example_want example_tree_lines None example_disk)) ''/var/db/gitup/ports'' = None \<and>
   snd (save_objects example_full_disk ''/var/db/gitup/ports'' example_want
          example_tree_lines None example_disk) = None \<and>
   last (fst (save_objects example_full_disk ''/var/db/gitup/ports'' example_want
                example_tree_lines None example_disk)) ''/var/db/gitup/ports'' = Some ''55555555''"
proof -
  have f: "length ''/var/db/gitup/ports'' + 5 \<le> 4096" by simp
  have k: "\<not> open_fails example_kernel" "\<not> remove_fails example_kernel"
    "\<not> rename_fails example_kernel" "\<forall>n. write_limit example_kernel n = None"
    by (simp_all add: example_kernel_def)
  have k': "\<not> open_fails (example_kernel\<lparr>rename_fails := True\<rparr>)"
    "\<not> remove_fails (example_kernel\<lparr>rename_fails := True\<rparr>)"
    "rename_fails (example_kernel\<lparr>rename_fails := True\<rparr>)"
    by (simp_all add: example_kernel_def)
  have k'': "\<not> open_fails example_full_disk" "\<not> remove_fails example_full_disk"
    "\<not> rename_fails example_full_disk"
    by (simp_all add: example_full_disk_def example_kernel_def)
  have l: "4 + length example_tree_lines = 6" by (simp add: example_tree_lines_def)
  note a = save_objects_after_remove [OF f k(1,2), where tree_lines = example_tree_lines]
  note b = save_objects_after_remove [OF f k'(1,2), where tree_lines = example_tree_lines]
  note c = save_objects_after_remove [OF f k''(1,2), where tree_lines = example_tree_lines]
  let ?t = "fst (save_objects (example_kernel\<lparr>rename_fails := True\<rparr>) ''/var/db/gitup/ports''
                example_want example_tree_lines None example_disk)"
  have t: "length ?t = 7" using b(3) [OF k'(3)] l by simp
  then have "?t \<noteq> []" by auto
  then have "last ?t = ?t ! (length ?t - 1)" by (rule last_conv_nth)
  then have "last ?t = ?t ! 6" by (simp only: t) simp
  with b(1) [of example_want example_disk] l have 1: "last ?t ''/var/db/gitup/ports'' = None"
    by simp
  have 2: "example_disk ''/var/db/gitup/ports'' = Some ''old manifest''"
    by (simp add: example_disk_def)
  have 3: "length (fst (save_objects example_kernel ''/var/db/gitup/ports'' example_want
                      example_tree_lines None example_disk)) = 8"
    using a(5) [OF k(3), of example_want example_disk] l by simp
  have 4: "last (fst (save_objects example_full_disk ''/var/db/gitup/ports'' example_want
                example_tree_lines None example_disk)) ''/var/db/gitup/ports'' = Some ''55555555''"
    by (simp only: save_objects_renamed [OF f k''] example_full_disk_written)
  show ?thesis
    using a(1) [of example_want example_disk] a(2) [OF k(4), of example_want example_disk]
      b(4) [OF k'(3), of example_want example_disk] c(6) [OF k''(3), of example_want example_disk]
      l 1 2 3 4
    by simp
qed

end
